theory Spec2Isabelle
  imports Main "HOL-Library.Sublist" "HOL-Library.AList" "HOL-Library.Multiset"
begin

section \<open>File trees\<close>

text \<open>
  The bot works on directory trees through \<^verbatim>\<open>pathlib\<close> and \<^verbatim>\<open>shutil\<close>.
  A tree is a file with its content or a directory with its entries, in the order in
  which the operating system enumerates them (\<^verbatim>\<open>iterdir\<close>, \<^verbatim>\<open>glob\<close>).
  A path is the list of its components below the root; a component is an opaque name
  (no separator inside, no \<^verbatim>\<open>..\<close>, no symbolic links).
\<close>

type_synonym path = "string list"

datatype node = File string | Dir "(string \<times> node) list"

datatype error =
    FileNotFoundError
  | FileExistsError
  | NotADirectoryError
  | IsADirectoryError
  | PermissionError
  | SameFileError
  | ShutilError
  | OverflowError
  | Exception' string

fun child :: "node \<Rightarrow> string \<Rightarrow> node option" where
  "child (File c) x = None"
| "child (Dir es) x = map_of es x"

fun lookup :: "node \<Rightarrow> path \<Rightarrow> node option" where
  "lookup n [] = Some n"
| "lookup n (x # xs) = (case child n x of None \<Rightarrow> None | Some c \<Rightarrow> lookup c xs)"

definition path_exists :: "node \<Rightarrow> path \<Rightarrow> bool" where
  "path_exists fs p = (lookup fs p \<noteq> None)"

definition is_dir :: "node \<Rightarrow> path \<Rightarrow> bool" where
  "is_dir fs p = (case lookup fs p of Some (Dir es) \<Rightarrow> True | _ \<Rightarrow> False)"

definition is_file :: "node \<Rightarrow> path \<Rightarrow> bool" where
  "is_file fs p = (case lookup fs p of Some (File c) \<Rightarrow> True | _ \<Rightarrow> False)"

text \<open>\<^verbatim>\<open>Path.parent\<close> and \<^verbatim>\<open>Path.name\<close>; the root is its own parent and has the empty name.\<close>

definition path_parent :: "path \<Rightarrow> path" where
  "path_parent p = butlast p"

definition path_name :: "path \<Rightarrow> string" where
  "path_name p = (if p = [] then [] else last p)"

section \<open>Decimal rendering of counters\<close>

definition digit :: "nat \<Rightarrow> char" where
  "digit d = ''0123456789'' ! d"

fun str_nat :: "nat \<Rightarrow> string" where
  "str_nat n = (if n < 10 then [digit n] else str_nat (n div 10) @ [digit (n mod 10)])"

declare str_nat.simps [simp del]

section \<open>Version marker and backup naming\<close>

text \<open>Python's \<^verbatim>\<open>str.strip()\<close> on the ASCII whitespace characters.\<close>

definition is_space :: "char \<Rightarrow> bool" where
  "is_space c = (c \<in> set [CHR 0x09, CHR 0x0A, CHR 0x0B, CHR 0x0C, CHR 0x0D,
                           CHR 0x1C, CHR 0x1D, CHR 0x1E, CHR 0x1F, CHR 0x20])"

definition strip :: "string \<Rightarrow> string" where
  "strip s = rev (dropWhile is_space (rev (dropWhile is_space s)))"

text \<open>
  \<^verbatim>\<open>get_current_version\<close>: the stripped content of \<^verbatim>\<open>version.txt\<close> when the file
  can be read and is not blank. A directory of that name makes \<^verbatim>\<open>open\<close> raise, which the
  function catches and answers \<^verbatim>\<open>None\<close>.
\<close>

definition get_current_version :: "node \<Rightarrow> path \<Rightarrow> string option" where
  "get_current_version fs target_path =
     (case lookup fs (target_path @ [''version.txt'']) of
        Some (File c) \<Rightarrow> (let version = strip c in if version \<noteq> [] then Some version else None)
      | _ \<Rightarrow> None)"




text \<open>
  The two \<^verbatim>\<open>while\<close> loops of \<^verbatim>\<open>create_backup_name\<close>. The first counts
  \<^verbatim>\<open><base>_bak1, <base>_bak2, ...\<close>; the second starts from the bare base name and then
  tries \<^verbatim>\<open><base>_1, <base>_2, ...\<close>.
\<close>

lemma digit_inj: "a < 10 \<Longrightarrow> b < 10 \<Longrightarrow> digit a = digit b \<Longrightarrow> a = b"
  unfolding digit_def
  by (auto simp: less_Suc_eq numeral_eq_Suc nth_Cons')

lemma str_nat_nonempty: "str_nat n \<noteq> []"
  by (subst str_nat.simps) simp

lemma str_nat_inj: "str_nat a = str_nat b \<Longrightarrow> a = b"
proof (induction a arbitrary: b rule: str_nat.induct)
  case (1 n)
  show ?case
  proof (cases "n < 10")
    case True
    then have sn: "str_nat n = [digit n]" by (subst str_nat.simps) simp
    show ?thesis
    proof (cases "b < 10")
      case True
      then have "str_nat b = [digit b]" by (subst str_nat.simps) simp
      with sn "1.prems" \<open>n < 10\<close> True show ?thesis by (auto dest: digit_inj)
    next
      case False
      then have "str_nat b = str_nat (b div 10) @ [digit (b mod 10)]"
        by (subst str_nat.simps) simp
      with sn "1.prems" have "str_nat (b div 10) = []" by simp
      then show ?thesis using str_nat_nonempty by blast
    qed
  next
    case False
    then have sn: "str_nat n = str_nat (n div 10) @ [digit (n mod 10)]"
      by (subst str_nat.simps) simp
    show ?thesis
    proof (cases "b < 10")
      case True
      then have "str_nat b = [digit b]" by (subst str_nat.simps) simp
      with sn "1.prems" have "str_nat (n div 10) = []" by simp
      then show ?thesis using str_nat_nonempty by blast
    next
      case b: False
      then have "str_nat b = str_nat (b div 10) @ [digit (b mod 10)]"
        by (subst str_nat.simps) simp
      with sn "1.prems" have e: "str_nat (n div 10) = str_nat (b div 10)"
        "digit (n mod 10) = digit (b mod 10)"
        by simp_all
      from "1.IH"[OF False e(1)] have "n div 10 = b div 10" .
      moreover from e(2) have "n mod 10 = b mod 10" by (auto dest!: digit_inj[rotated 2])
      ultimately show ?thesis by (metis div_mult_mod_eq)
    qed
  qed
qed

lemma lookup_append:
  "lookup n (p @ q) = (case lookup n p of None \<Rightarrow> None | Some m \<Rightarrow> lookup m q)"
  by (induction p arbitrary: n) (auto split: option.splits)

lemma finite_children: "finite {x. path_exists fs (p @ [x])}"
proof (cases "lookup fs p")
  case None
  then show ?thesis by (simp add: path_exists_def lookup_append)
next
  case (Some m)
  show ?thesis
  proof (cases m)
    case (File c)
    with Some show ?thesis by (simp add: path_exists_def lookup_append)
  next
    case (Dir es)
    with Some have "{x. path_exists fs (p @ [x])} \<subseteq> fst ` set es"
      by (auto simp: path_exists_def lookup_append split: option.splits dest!: map_of_SomeD
          intro: rev_image_eqI)
    then show ?thesis by (rule finite_subset) simp
  qed
qed

lemma finite_numbered:
  "finite {j. path_exists fs (p @ [base @ str_nat j])}"
proof -
  have "inj (\<lambda>j. base @ str_nat j)"
    by (rule injI) (simp add: str_nat_inj)
  then have "finite ((\<lambda>j. base @ str_nat j) -` {x. path_exists fs (p @ [x])})"
    by (rule finite_vimageI[OF finite_children])
  then show ?thesis by (simp add: vimage_def)
qed

lemma numbered_decreases:
  assumes "path_exists fs (p @ [base @ str_nat k])"
  shows "card {j. Suc k \<le> j \<and> path_exists fs (p @ [base @ str_nat j])}
       < card {j. k \<le> j \<and> path_exists fs (p @ [base @ str_nat j])}"
proof (rule psubset_card_mono)
  show "finite {j. k \<le> j \<and> path_exists fs (p @ [base @ str_nat j])}"
    using finite_numbered[of fs p base] by (rule rev_finite_subset) auto
  show "{j. Suc k \<le> j \<and> path_exists fs (p @ [base @ str_nat j])}
      \<subset> {j. k \<le> j \<and> path_exists fs (p @ [base @ str_nat j])}"
  proof
    show "{j. Suc k \<le> j \<and> path_exists fs (p @ [base @ str_nat j])}
        \<subseteq> {j. k \<le> j \<and> path_exists fs (p @ [base @ str_nat j])}"
      by auto
    have "k \<in> {j. k \<le> j \<and> path_exists fs (p @ [base @ str_nat j])}"
      using assms by simp
    moreover have "k \<notin> {j. Suc k \<le> j \<and> path_exists fs (p @ [base @ str_nat j])}"
      by simp
    ultimately show "{j. Suc k \<le> j \<and> path_exists fs (p @ [base @ str_nat j])}
        \<noteq> {j. k \<le> j \<and> path_exists fs (p @ [base @ str_nat j])}"
      by blast
  qed
qed

function bak_loop :: "node \<Rightarrow> path \<Rightarrow> string \<Rightarrow> nat \<Rightarrow> nat" where
  "bak_loop fs parent_dir backup_base counter =
     (if path_exists fs (parent_dir @ [backup_base @ str_nat counter])
      then bak_loop fs parent_dir backup_base (counter + 1)
      else counter)"
  by pat_completeness auto
termination
  by (relation "measure (\<lambda>(fs, p, base, k).
        card {j. k \<le> j \<and> path_exists fs (p @ [base @ str_nat j])})")
     (simp_all add: numbered_decreases)

function unique_loop :: "node \<Rightarrow> path \<Rightarrow> string \<Rightarrow> string \<Rightarrow> nat \<Rightarrow> string" where
  "unique_loop fs parent_dir backup_base backup_name counter =
     (if path_exists fs (parent_dir @ [backup_name])
      then unique_loop fs parent_dir backup_base (backup_base @ ''_'' @ str_nat counter) (counter + 1)
      else backup_name)"
  by pat_completeness auto
termination
proof (relation "measure (\<lambda>(fs, p, base, nm, k).
        card {j. k \<le> j \<and> path_exists fs (p @ [(base @ ''_'') @ str_nat j])}
        + (if path_exists fs (p @ [nm]) then 1 else 0))", goal_cases)
  case 1
  then show ?case by simp
next
  case (2 fs parent_dir backup_base backup_name counter)
  show ?case
  proof (cases "path_exists fs (parent_dir @ [(backup_base @ ''_'') @ str_nat counter])")
    case True
    from numbered_decreases[OF True] 2 True show ?thesis by simp
  next
    case False
    then have "{j. Suc counter \<le> j \<and> path_exists fs (parent_dir @ [(backup_base @ ''_'') @ str_nat j])}
             = {j. counter \<le> j \<and> path_exists fs (parent_dir @ [(backup_base @ ''_'') @ str_nat j])}"
      by (auto simp: le_less Suc_le_eq)
    with 2 False show ?thesis by simp
  qed
qed

declare bak_loop.simps [simp del]
declare unique_loop.simps [simp del]

text \<open>
  \<^verbatim>\<open>create_backup_name\<close>. The fallback artifact number is optional in the source
  (\<^verbatim>\<open>None\<close> by default); Python's truth test also rejects the empty string.
\<close>

definition create_backup_name :: "node \<Rightarrow> path \<Rightarrow> string option \<Rightarrow> path" where
  "create_backup_name fs target_path new_artifact_number =
     (let parent_dir = path_parent target_path;
          base_name = path_name target_path
      in case get_current_version fs target_path of
           Some current_version \<Rightarrow>
             (let backup_base = base_name @ ''_backup_'' @ current_version
              in parent_dir @ [unique_loop fs parent_dir backup_base backup_base 1])
         | None \<Rightarrow>
             (case new_artifact_number of
                Some (c # cs) \<Rightarrow>
                  (let backup_base = base_name @ ''_backup_'' @ (c # cs)
                   in parent_dir @ [unique_loop fs parent_dir backup_base backup_base 1])
              | _ \<Rightarrow>
                  (let backup_base = base_name @ ''_bak''
                   in parent_dir @ [backup_base @ str_nat (bak_loop fs parent_dir backup_base 1)])))"

section \<open>Library operations on file trees\<close>

text \<open>
  \<open>put\<close> stores a node at a path whose parent directory exists, replacing what was there;
  a new name goes to the end of the enumeration. \<open>remove\<close> deletes the node at a path.
\<close>

fun put :: "node \<Rightarrow> path \<Rightarrow> node \<Rightarrow> node option" where
  "put n [] v = Some v"
| "put (File c) (x # xs) v = None"
| "put (Dir es) [x] v = Some (Dir (AList.update x v es))"
| "put (Dir es) (x # y # ys) v =
     (case map_of es x of
        None \<Rightarrow> None
      | Some c \<Rightarrow> (case put c (y # ys) v of
                    None \<Rightarrow> None
                  | Some c' \<Rightarrow> Some (Dir (AList.update x c' es))))"

fun remove :: "node \<Rightarrow> path \<Rightarrow> node" where
  "remove n [] = n"
| "remove (File c) (x # xs) = File c"
| "remove (Dir es) [x] = Dir (AList.delete x es)"
| "remove (Dir es) (x # y # ys) =
     (case map_of es x of
        None \<Rightarrow> Dir es
      | Some c \<Rightarrow> Dir (AList.update x (remove c (y # ys)) es))"

text \<open>\<^verbatim>\<open>open(p, 'w').write(c)\<close>: fails on a directory and where the parent is missing.\<close>

definition write_file :: "node \<Rightarrow> path \<Rightarrow> string \<Rightarrow> error + node" where
  "write_file fs p c =
     (if is_dir fs p then Inl IsADirectoryError
      else case put fs p (File c) of
             None \<Rightarrow> Inl FileNotFoundError
           | Some fs' \<Rightarrow> Inr fs')"

text \<open>The names in a directory, in enumeration order; nothing for a path that is no directory.\<close>

definition listdir :: "node \<Rightarrow> path \<Rightarrow> string list" where
  "listdir fs p = (case lookup fs p of Some (Dir es) \<Rightarrow> map fst es | _ \<Rightarrow> [])"

text \<open>
  \<^verbatim>\<open>Path.glob\<close> with one pattern component: \<^verbatim>\<open>*\<close> stands for any run of characters and
  \<^verbatim>\<open>?\<close> for one; every other character stands for itself, compared case-sensitively.
  Bracket classes are left out: the patterns of this program are built from directory
  names and artifact numbers. A missing directory gives no match.
\<close>

fun glob_match :: "string \<Rightarrow> string \<Rightarrow> bool" where
  "glob_match [] s = (s = [])"
| "glob_match (p # ps) [] = (p = CHR ''*'' \<and> glob_match ps [])"
| "glob_match (p # ps) (c # cs) =
     (if p = CHR ''*'' then glob_match ps (c # cs) \<or> glob_match (p # ps) cs
      else if p = CHR ''?'' then glob_match ps cs
      else p = c \<and> glob_match ps cs)"

definition glob :: "node \<Rightarrow> path \<Rightarrow> string \<Rightarrow> string list" where
  "glob fs p pattern = filter (glob_match pattern) (listdir fs p)"



text \<open>
  Deleting can fail for a reason the tree does not show (a file in use, a read-only file):
  \<open>locked\<close> says which paths refuse to be deleted. \<open>rm_node\<close> follows \<^verbatim>\<open>shutil.rmtree\<close>:
  entries are removed in enumeration order, the directory itself last, and the first
  failure stops the walk; it answers what is left of the node, \<open>None\<close> when all is gone.
\<close>

fun any_locked :: "(path \<Rightarrow> bool) \<Rightarrow> path \<Rightarrow> node \<Rightarrow> bool" where
  "any_locked locked p (File c) = locked p"
| "any_locked locked p (Dir es) = (locked p \<or> list_ex (\<lambda>e. any_locked locked (p @ [fst e]) (snd e)) es)"

fun rm_node :: "(path \<Rightarrow> bool) \<Rightarrow> path \<Rightarrow> node \<Rightarrow> node option"
  and rm_entries :: "(path \<Rightarrow> bool) \<Rightarrow> path \<Rightarrow> (string \<times> node) list \<Rightarrow> (string \<times> node) list" where
  "rm_node locked p (File c) = (if locked p then Some (File c) else None)"
| "rm_node locked p (Dir es) =
     (case rm_entries locked p es of
        [] \<Rightarrow> (if locked p then Some (Dir []) else None)
      | e # es' \<Rightarrow> Some (Dir (e # es')))"
| "rm_entries locked p [] = []"
| "rm_entries locked p ((x, c) # rest) =
     (case rm_node locked (p @ [x]) c of
        None \<Rightarrow> rm_entries locked p rest
      | Some c' \<Rightarrow> (x, c') # rest)"


definition unlink :: "(path \<Rightarrow> bool) \<Rightarrow> node \<Rightarrow> path \<Rightarrow> error + node" where
  "unlink locked fs p =
     (case lookup fs p of
        None \<Rightarrow> Inl FileNotFoundError
      | Some (Dir es) \<Rightarrow> Inl IsADirectoryError
      | Some (File c) \<Rightarrow> (if locked p then Inl PermissionError else Inr (remove fs p)))"

definition rmtree :: "(path \<Rightarrow> bool) \<Rightarrow> node \<Rightarrow> path \<Rightarrow> (error \<times> node) + node" where
  "rmtree locked fs p =
     (case lookup fs p of
        None \<Rightarrow> Inl (FileNotFoundError, fs)
      | Some (File c) \<Rightarrow> Inl (NotADirectoryError, fs)
      | Some (Dir es) \<Rightarrow>
          (case rm_node locked p (Dir es) of
             None \<Rightarrow> Inr (remove fs p)
           | Some rest \<Rightarrow> Inl (PermissionError, case put fs p rest of None \<Rightarrow> fs | Some fs' \<Rightarrow> fs')))"

section \<open>Backup catalog: deletion\<close>

definition delete_backup_directory ::
  "(path \<Rightarrow> bool) \<Rightarrow> node \<Rightarrow> path \<Rightarrow> (error + bool) \<times> node" where
  "delete_backup_directory locked fs backup_path =
     (if path_exists fs backup_path \<and> is_dir fs backup_path
      then (case rmtree locked fs backup_path of
              Inl (e, fs') \<Rightarrow> (Inl e, fs')
            | Inr fs' \<Rightarrow> (Inr True, fs'))
      else (Inr False, fs))"

section \<open>Cleanup of cached archives\<close>

text \<open>
  Times are the naive local dates and times of \<^verbatim>\<open>datetime\<close>, counted in microseconds from
  \<^verbatim>\<open>datetime.min\<close>, the start of year 1: \<open>now\<close> is \<^verbatim>\<open>datetime.now()\<close> and \<open>file_time\<close>
  gives for a path \<^verbatim>\<open>datetime.fromtimestamp(file_path.stat().st_mtime)\<close>, or the exception
  that the conversion raises. A \<^verbatim>\<open>timedelta\<close> holds at most 999999999 days and a
  \<^verbatim>\<open>datetime\<close> ends with year 9999; \<^verbatim>\<open>datetime.now() - timedelta(days=days_old)\<close>
  raises \<^verbatim>\<open>OverflowError\<close> outside these bounds. That line stands before the \<^verbatim>\<open>try\<close>,
  so its exception leaves the function, with the tree as it was; any exception inside the
  loop is caught and answered with 0. The configured \<^verbatim>\<open>auto_cleanup_days\<close> stands in
  when no argument is given.
\<close>

definition microseconds_per_day :: int where
  "microseconds_per_day = 86400000000"

definition timedelta_max_days :: int where
  "timedelta_max_days = 999999999"

definition datetime_max :: int where
  "datetime_max = 3652059 * microseconds_per_day - 1"

definition cutoff_of :: "int \<Rightarrow> int \<Rightarrow> error + int" where
  "cutoff_of now days_old =
     (if days_old < - timedelta_max_days \<or> timedelta_max_days < days_old then Inl OverflowError
      else (let cutoff_date = now - days_old * microseconds_per_day
            in if cutoff_date < 0 \<or> datetime_max < cutoff_date then Inl OverflowError
               else Inr cutoff_date))"

fun cleanup_loop ::
  "(path \<Rightarrow> error + int) \<Rightarrow> (path \<Rightarrow> bool) \<Rightarrow> int \<Rightarrow> path list \<Rightarrow> nat \<Rightarrow> node
   \<Rightarrow> (error + nat) \<times> node" where
  "cleanup_loop file_time locked cutoff_date [] deleted_count fs = (Inr deleted_count, fs)"
| "cleanup_loop file_time locked cutoff_date (file_path # rest) deleted_count fs =
     (if \<not> path_exists fs file_path then (Inl FileNotFoundError, fs)
      else case file_time file_path of
             Inl e \<Rightarrow> (Inl e, fs)
           | Inr t \<Rightarrow>
               if t < cutoff_date
               then (case unlink locked fs file_path of
                       Inl e \<Rightarrow> (Inl e, fs)
                     | Inr fs' \<Rightarrow> cleanup_loop file_time locked cutoff_date rest (deleted_count + 1) fs')
               else cleanup_loop file_time locked cutoff_date rest deleted_count fs)"

definition cleanup_old_files ::
  "int \<Rightarrow> path \<Rightarrow> (path \<Rightarrow> error + int) \<Rightarrow> (path \<Rightarrow> bool) \<Rightarrow> int \<Rightarrow> int option \<Rightarrow> node
   \<Rightarrow> error + (nat \<times> node)" where
  "cleanup_old_files auto_cleanup_days download_path file_time locked now days_old_arg fs =
     (let days_old = (case days_old_arg of None \<Rightarrow> auto_cleanup_days | Some d \<Rightarrow> d)
      in if days_old \<le> 0 then Inr (0, fs)
         else
           (case cutoff_of now days_old of
              Inl e \<Rightarrow> Inl e
            | Inr cutoff_date \<Rightarrow>
                (case cleanup_loop file_time locked cutoff_date
                        (map (\<lambda>n. download_path @ [n]) (glob fs download_path ''*.7z'')) 0 fs of
                   (Inr deleted_count, fs') \<Rightarrow> Inr (deleted_count, fs')
                 | (Inl e, fs') \<Rightarrow> Inr (0, fs'))))"


section \<open>Backup catalog: listing\<close>

text \<open>
  An entry of the listing. The source reports the size in megabytes as a float; the model
  keeps the byte count. \<open>st_ctime\<close> gives the time stamp the file system reports for a
  path and \<open>fromtimestamp\<close> is \<^verbatim>\<open>datetime.fromtimestamp\<close>, the conversion of a time stamp
  to the naive local date and time that the entry carries as \<open>created\<close> and that the
  listing is sorted on; both count microseconds. The conversion is taken as defined on the
  time stamps of existing directories; nothing else is assumed of it, and in a time zone
  with daylight saving it does not preserve the order of time stamps. Python's
  \<^verbatim>\<open>sort(key=..., reverse=True)\<close> is stable, as is \<open>sort_key\<close> on the negated key.
\<close>

datatype backup_type = Server | ServerPlusData | ServerData

record backup_entry =
  path :: path
  name :: string
  created :: int
  size_bytes :: nat
  btype :: backup_type



section \<open>Artifact cache\<close>

text \<open>
  The listing page is scanned with
  \<^verbatim>\<open>href="\./(<artifact_number>-[a-f0-9]+)\/server\.7z"\<close>; \<open>re_search\<close> tries every
  position from the left, as \<^verbatim>\<open>re.search\<close> does. The artifact number is taken literally.
\<close>

definition is_hex :: "char \<Rightarrow> bool" where
  "is_hex c = (c \<in> set ''abcdef0123456789'')"

fun strip_prefix :: "string \<Rightarrow> string \<Rightarrow> string option" where
  "strip_prefix [] s = Some s"
| "strip_prefix (p # ps) [] = None"
| "strip_prefix (p # ps) (c # cs) = (if p = c then strip_prefix ps cs else None)"

definition match_at :: "string \<Rightarrow> string \<Rightarrow> string option" where
  "match_at artifact_number s =
     (case strip_prefix (''href='' @ [CHR 0x22] @ ''./'' @ artifact_number @ ''-'') s of
        None \<Rightarrow> None
      | Some rest \<Rightarrow>
          (let h = takeWhile is_hex rest
           in if h \<noteq> [] \<and> strip_prefix (''/server.7z'' @ [CHR 0x22]) (dropWhile is_hex rest) \<noteq> None
              then Some (artifact_number @ ''-'' @ h) else None))"

fun re_search :: "string \<Rightarrow> string \<Rightarrow> string option" where
  "re_search artifact_number [] = match_at artifact_number []"
| "re_search artifact_number (c # cs) =
     (case match_at artifact_number (c # cs) of
        Some d \<Rightarrow> Some d
      | None \<Rightarrow> re_search artifact_number cs)"

text \<open>
  The network is a function from a URL to its response; \<open>requests\<close> records every URL
  that was fetched. A transfer that breaks in the middle of the body is not modelled.
\<close>

datatype response = Response nat string | ConnectionError

record world =
  files :: node
  requests :: "string list"

definition list_url :: string where
  "list_url = ''https://runtime.fivem.net/artifacts/fivem/build_server_windows/master/''"

definition get_artifact_hash_from_directory ::
  "(string \<Rightarrow> response) \<Rightarrow> string \<Rightarrow> world \<Rightarrow> (error + string) \<times> world" where
  "get_artifact_hash_from_directory session artifact_number w =
     (let w1 = w\<lparr>requests := requests w @ [list_url]\<rparr>
      in case session list_url of
           ConnectionError \<Rightarrow> (Inl (Exception' ''connection failed''), w1)
         | Response status html_content \<Rightarrow>
             (if status \<noteq> 200 then (Inl (Exception' ''Failed to fetch artifact list''), w1)
              else case re_search artifact_number html_content of
                     Some artifact_dir \<Rightarrow> (Inr artifact_dir, w1)
                   | None \<Rightarrow> (Inl (Exception' ''Artifact not found in directory listing''), w1)))"

definition download_or_find_artifact ::
  "(string \<Rightarrow> response) \<Rightarrow> path \<Rightarrow> string \<Rightarrow> bool \<Rightarrow> world \<Rightarrow> (error + path) \<times> world" where
  "download_or_find_artifact session download_path artifact_number force_download w =
     (let existing_files = glob (files w) download_path (artifact_number @ ''*.7z'')
      in if existing_files \<noteq> [] \<and> \<not> force_download
         then (Inr (download_path @ [hd existing_files]), w)
         else
           (case get_artifact_hash_from_directory session artifact_number w of
              (Inl e, w1) \<Rightarrow>
                (Inl (Exception' ''Artifact not found in FiveM directory listing''), w1)
            | (Inr artifact_dir, w1) \<Rightarrow>
                (let download_url = list_url @ artifact_dir @ ''/server.7z'';
                     artifact_filename = artifact_number @ ''.7z'';
                     local_file_path = download_path @ [artifact_filename];
                     w2 = w1\<lparr>requests := requests w1 @ [download_url]\<rparr>
                 in case session download_url of
                      ConnectionError \<Rightarrow> (Inl (Exception' ''connection failed''), w2)
                    | Response status body \<Rightarrow>
                        (if status \<noteq> 200
                         then (Inl (Exception' ''Failed to download artifact''), w2)
                         else case write_file (files w2) local_file_path body of
                                Inl e \<Rightarrow> (Inl e, w2)
                              | Inr fs' \<Rightarrow> (Inr local_file_path, w2\<lparr>files := fs'\<rparr>)))))"

section \<open>Copying and moving trees\<close>

text \<open>
  \<^verbatim>\<open>Path.mkdir(parents=True, exist_ok=True)\<close> and \<^verbatim>\<open>os.makedirs\<close>: missing directories
  along the path are created; a file on the way or at the end is an error.
\<close>

fun mkdirs :: "node \<Rightarrow> path \<Rightarrow> error + node" where
  "mkdirs (File c) [] = Inl FileExistsError"
| "mkdirs (Dir es) [] = Inr (Dir es)"
| "mkdirs (File c) (x # xs) = Inl NotADirectoryError"
| "mkdirs (Dir es) (x # xs) =
     (case mkdirs (case map_of es x of None \<Rightarrow> Dir [] | Some c \<Rightarrow> c) xs of
        Inl e \<Rightarrow> Inl e
      | Inr c' \<Rightarrow> Inr (Dir (AList.update x c' es)))"

definition makedirs :: "node \<Rightarrow> path \<Rightarrow> bool \<Rightarrow> error + node" where
  "makedirs fs p exist_ok =
     (if \<not> exist_ok \<and> path_exists fs p then Inl FileExistsError else mkdirs fs p)"

text \<open>
  \<^verbatim>\<open>shutil.copy2(src, dst)\<close>: a destination that is a directory receives the file under
  the source's base name.
\<close>

definition copy2 :: "node \<Rightarrow> path \<Rightarrow> path \<Rightarrow> error + node" where
  "copy2 fs src dst =
     (case lookup fs src of
        None \<Rightarrow> Inl FileNotFoundError
      | Some (Dir es) \<Rightarrow> Inl IsADirectoryError
      | Some (File c) \<Rightarrow>
          (let real_dst = (if is_dir fs dst then dst @ [path_name src] else dst)
           in if real_dst = src then Inl SameFileError else write_file fs real_dst c))"

text \<open>
  \<^verbatim>\<open>shutil.copytree\<close> as a merge of the source's entries into the entries of the
  destination directory. \<open>merge_node\<close> copies one source entry named \<open>x\<close> onto what the
  destination has under that name: a file as \<^verbatim>\<open>copy2\<close> does, a directory by
  \<^verbatim>\<open>makedirs\<close> and recursion. Errors inside the walk are collected and the walk goes on,
  as in \<^verbatim>\<open>shutil\<close>; the caller raises when the list is not empty. The source and the
  destination are taken to be disjoint trees.
\<close>

fun merge_node :: "bool \<Rightarrow> string \<Rightarrow> node \<Rightarrow> node option \<Rightarrow> error list \<times> node option"
  and merge_entries :: "bool \<Rightarrow> (string \<times> node) list \<Rightarrow> (string \<times> node) list
                        \<Rightarrow> error list \<times> (string \<times> node) list" where
  "merge_node dirs_exist_ok x (File c) d =
     (case d of
        Some (Dir dd) \<Rightarrow>
          (case map_of dd x of
             Some (Dir sub) \<Rightarrow> ([IsADirectoryError], d)
           | _ \<Rightarrow> ([], Some (Dir (AList.update x (File c) dd))))
      | _ \<Rightarrow> ([], Some (File c)))"
| "merge_node dirs_exist_ok x (Dir es) d =
     (case d of
        Some (File c) \<Rightarrow> ([FileExistsError], d)
      | Some (Dir dd) \<Rightarrow>
          (if dirs_exist_ok
           then (case merge_entries dirs_exist_ok es dd of (errs, dd') \<Rightarrow> (errs, Some (Dir dd')))
           else ([FileExistsError], d))
      | None \<Rightarrow>
          (case merge_entries dirs_exist_ok es [] of (errs, dd') \<Rightarrow> (errs, Some (Dir dd'))))"
| "merge_entries dirs_exist_ok [] ds = ([], ds)"
| "merge_entries dirs_exist_ok ((x, c) # rest) ds =
     (case merge_node dirs_exist_ok x c (map_of ds x) of
        (errs, d') \<Rightarrow>
          (case merge_entries dirs_exist_ok rest
                  (case d' of None \<Rightarrow> ds | Some n \<Rightarrow> AList.update x n ds) of
             (errs', ds') \<Rightarrow> (errs @ errs', ds')))"

definition copytree :: "node \<Rightarrow> path \<Rightarrow> path \<Rightarrow> bool \<Rightarrow> (error \<times> node) + node" where
  "copytree fs src dst dirs_exist_ok =
     (case lookup fs src of
        None \<Rightarrow> Inl (FileNotFoundError, fs)
      | Some (File c) \<Rightarrow> Inl (NotADirectoryError, fs)
      | Some (Dir es) \<Rightarrow>
          (case makedirs fs dst dirs_exist_ok of
             Inl e \<Rightarrow> Inl (e, fs)
           | Inr fs1 \<Rightarrow>
               (case lookup fs1 dst of
                  Some (Dir ds) \<Rightarrow>
                    (case merge_entries dirs_exist_ok es ds of
                       (errs, ds') \<Rightarrow>
                         (case put fs1 dst (Dir ds') of
                            None \<Rightarrow> Inl (FileNotFoundError, fs1)
                          | Some fs2 \<Rightarrow> if errs = [] then Inr fs2 else Inl (ShutilError, fs2)))
                | _ \<Rightarrow> Inl (NotADirectoryError, fs1))))"

text \<open>
  \<^verbatim>\<open>shutil.move(src, dst)\<close>: an existing destination directory receives the source under
  its base name; otherwise the source is renamed to the destination, whose missing parent
  directories the fallback of \<^verbatim>\<open>shutil\<close> creates for a directory source.
\<close>

definition shutil_move :: "node \<Rightarrow> path \<Rightarrow> path \<Rightarrow> error + node" where
  "shutil_move fs src dst =
     (case lookup fs src of
        None \<Rightarrow> Inl FileNotFoundError
      | Some n \<Rightarrow>
          (let real_dst = (if is_dir fs dst then dst @ [path_name src] else dst)
           in if src = [] \<or> prefix src real_dst then Inl ShutilError
              else if is_dir fs dst \<and> path_exists fs real_dst then Inl ShutilError
              else if path_exists fs real_dst \<and> is_dir fs src then Inl FileExistsError
              else (case n of
                      File c \<Rightarrow>
                        (case put (remove fs src) real_dst n of
                           None \<Rightarrow> Inl FileNotFoundError
                         | Some fs' \<Rightarrow> Inr fs')
                    | Dir es \<Rightarrow>
                        (case mkdirs (remove fs src) (path_parent real_dst) of
                           Inl e \<Rightarrow> Inl e
                         | Inr fs1 \<Rightarrow>
                             (case put fs1 real_dst n of
                                None \<Rightarrow> Inl FileNotFoundError
                              | Some fs' \<Rightarrow> Inr fs')))))"

text \<open>The files and the directories below a directory, as \<^verbatim>\<open>os.walk\<close> counts them.\<close>

fun count_files :: "node \<Rightarrow> nat" where
  "count_files (File c) = 1"
| "count_files (Dir es) = sum_list (map (\<lambda>e. count_files (snd e)) es)"

fun count_dirs :: "node \<Rightarrow> nat" where
  "count_dirs (File c) = 0"
| "count_dirs (Dir es) = sum_list (map (\<lambda>e. (case snd e of Dir sub \<Rightarrow> 1 | File c \<Rightarrow> 0) + count_dirs (snd e)) es)"

section \<open>Swap engine: \<^verbatim>\<open>copy_server_files\<close>\<close>

text \<open>
  The state is the file tree together with the messages the function has logged; the
  messages that report counts carry them. A raised exception is the left summand and keeps
  the state reached.
\<close>

datatype log_event =
    StartingFileCopy
  | CreatingBackup string
  | BackupCreated string
  | CreatingDataBackup string
  | DataBackupCreated string
  | RestoringServerData
  | ServerDataRestored nat nat
  | FoundServerDataInBackup
  | CopyingServerDataToConfigured
  | CopyingServerDataBack
  | ServerDataFromBackupRestored nat nat
  | CopyingServerDataFromArtifact
  | ServerDataFromArtifact nat nat
  | FilesCopied nat nat
  | CreatedVersionFile string
  | FailedVersionFile
  | FileCopyFailed

record copy_state =
  tree :: node
  log :: "log_event list"

type_synonym 'a raising = "(error \<times> copy_state) + ('a \<times> copy_state)"

definition and_then :: "'a raising \<Rightarrow> ('a \<Rightarrow> copy_state \<Rightarrow> 'b raising) \<Rightarrow> 'b raising" where
  "and_then m f = (case m of Inl e \<Rightarrow> Inl e | Inr (a, st) \<Rightarrow> f a st)"

definition logging :: "log_event \<Rightarrow> copy_state \<Rightarrow> copy_state" where
  "logging ev st = st\<lparr>log := log st @ [ev]\<rparr>"

text \<open>Python's truth test on an optional string.\<close>

fun truthy :: "string option \<Rightarrow> bool" where
  "truthy None = False"
| "truthy (Some []) = False"
| "truthy (Some (c # cs)) = True"

definition iterdir :: "node \<Rightarrow> path \<Rightarrow> error + string list" where
  "iterdir fs p =
     (case lookup fs p of
        None \<Rightarrow> Inl FileNotFoundError
      | Some (File c) \<Rightarrow> Inl NotADirectoryError
      | Some (Dir es) \<Rightarrow> Inr (map fst es))"

text \<open>
  The loop that the source writes four times:
  \<^verbatim>\<open>for item in src.iterdir(): copy2 a file, copytree(dirs_exist_ok=True) a directory\<close>,
  counting files and directories.
\<close>

fun copy_items ::
  "path \<Rightarrow> path \<Rightarrow> string list \<Rightarrow> nat \<Rightarrow> nat \<Rightarrow> node \<Rightarrow> (error \<times> node) + (nat \<times> nat \<times> node)" where
  "copy_items src dst [] nfiles ndirs fs = Inr (nfiles, ndirs, fs)"
| "copy_items src dst (x # xs) nfiles ndirs fs =
     (if is_file fs (src @ [x])
      then (case copy2 fs (src @ [x]) (dst @ [x]) of
              Inl e \<Rightarrow> Inl (e, fs)
            | Inr fs' \<Rightarrow> copy_items src dst xs (nfiles + 1) ndirs fs')
      else if is_dir fs (src @ [x])
      then (case copytree fs (src @ [x]) (dst @ [x]) True of
              Inl (e, fs') \<Rightarrow> Inl (e, fs')
            | Inr fs' \<Rightarrow> copy_items src dst xs nfiles (ndirs + 1) fs')
      else copy_items src dst xs nfiles ndirs fs)"

definition copy_all_items ::
  "path \<Rightarrow> path \<Rightarrow> nat \<Rightarrow> nat \<Rightarrow> copy_state \<Rightarrow> (nat \<times> nat) raising" where
  "copy_all_items src dst nfiles ndirs st =
     (case iterdir (tree st) src of
        Inl e \<Rightarrow> Inl (e, st)
      | Inr names \<Rightarrow>
          (case copy_items src dst names nfiles ndirs (tree st) of
             Inl (e, fs') \<Rightarrow> Inl (e, st\<lparr>tree := fs'\<rparr>)
           | Inr (nfiles', ndirs', fs') \<Rightarrow> Inr ((nfiles', ndirs'), st\<lparr>tree := fs'\<rparr>)))"

definition mkdir_parents :: "path \<Rightarrow> copy_state \<Rightarrow> unit raising" where
  "mkdir_parents p st =
     (case mkdirs (tree st) p of
        Inl e \<Rightarrow> Inl (e, st)
      | Inr fs' \<Rightarrow> Inr ((), st\<lparr>tree := fs'\<rparr>))"

text \<open>\<^verbatim>\<open>copytree(src, dst, dirs_exist_ok=True)\<close> followed by the \<^verbatim>\<open>os.walk\<close> count of \<open>dst\<close>.\<close>

definition copytree_and_count ::
  "path \<Rightarrow> path \<Rightarrow> nat \<Rightarrow> nat \<Rightarrow> copy_state \<Rightarrow> (nat \<times> nat) raising" where
  "copytree_and_count src dst nfiles ndirs st =
     (case copytree (tree st) src dst True of
        Inl (e, fs') \<Rightarrow> Inl (e, st\<lparr>tree := fs'\<rparr>)
      | Inr fs' \<Rightarrow>
          (case lookup fs' dst of
             Some (Dir es) \<Rightarrow>
               Inr ((nfiles + count_files (Dir es), ndirs + count_dirs (Dir es)), st\<lparr>tree := fs'\<rparr>)
           | _ \<Rightarrow> Inr ((nfiles, ndirs), st\<lparr>tree := fs'\<rparr>)))"

text \<open>Step 1 and step 2: move a non-empty tree aside.\<close>

definition backup_server_files :: "path \<Rightarrow> string option \<Rightarrow> copy_state \<Rightarrow> string option raising" where
  "backup_server_files target_path artifact_number st =
     (case lookup (tree st) target_path of
        None \<Rightarrow> Inr (None, st)
      | Some (File c) \<Rightarrow> Inl (NotADirectoryError, st)
      | Some (Dir []) \<Rightarrow> Inr (None, st)
      | Some (Dir (e # es)) \<Rightarrow>
          (let backup_path = create_backup_name (tree st) target_path artifact_number;
               st1 = logging (CreatingBackup (path_name backup_path)) st
           in case shutil_move (tree st1) target_path backup_path of
                Inl err \<Rightarrow> Inl (err, st1)
              | Inr fs' \<Rightarrow>
                  Inr (Some (path_name backup_path),
                       logging (BackupCreated (path_name backup_path)) (st1\<lparr>tree := fs'\<rparr>))))"

definition backup_server_data :: "path option \<Rightarrow> string option \<Rightarrow> copy_state \<Rightarrow> string option raising" where
  "backup_server_data server_data_dir artifact_number st =
     (case server_data_dir of
        None \<Rightarrow> Inr (None, st)
      | Some server_data_path \<Rightarrow>
          (case lookup (tree st) server_data_path of
             None \<Rightarrow> Inr (None, st)
           | Some (File c) \<Rightarrow> Inl (NotADirectoryError, st)
           | Some (Dir []) \<Rightarrow> Inr (None, st)
           | Some (Dir (e # es)) \<Rightarrow>
               (let data_backup_path = create_backup_name (tree st) server_data_path artifact_number;
                    st1 = logging (CreatingDataBackup (path_name data_backup_path)) st
                in case shutil_move (tree st1) server_data_path data_backup_path of
                     Inl err \<Rightarrow> Inl (err, st1)
                   | Inr fs' \<Rightarrow>
                       Inr (Some (path_name data_backup_path),
                            logging (DataBackupCreated (path_name data_backup_path))
                              (st1\<lparr>tree := fs'\<rparr>)))))"

text \<open>Step 3: the fresh target directory and the copy of the extracted tree.\<close>

definition install_files :: "path \<Rightarrow> path \<Rightarrow> copy_state \<Rightarrow> (nat \<times> nat) raising" where
  "install_files source_path target_path st =
     and_then (mkdir_parents target_path st)
       (\<lambda>u st1. copy_all_items source_path target_path 0 0 st1)"

text \<open>Step 4, first source: the data backup made in step 2.\<close>

definition restore_from_data_backup ::
  "path option \<Rightarrow> string option \<Rightarrow> copy_state \<Rightarrow> (nat \<times> nat) raising" where
  "restore_from_data_backup server_data_dir data_backup_created st =
     (case server_data_dir of
        None \<Rightarrow> Inr ((0, 0), st)
      | Some server_data_path \<Rightarrow>
          (case data_backup_created of
             None \<Rightarrow> Inr ((0, 0), st)
           | Some data_backup_name \<Rightarrow>
               (if \<not> truthy data_backup_created then Inr ((0, 0), st)
                else
                  (let backup_path = path_parent server_data_path @ [data_backup_name]
                   in if path_exists (tree st) backup_path
                      then and_then (mkdir_parents server_data_path st)
                             (\<lambda>u st1.
                                and_then (copy_all_items backup_path server_data_path 0 0
                                            (logging RestoringServerData st1))
                                  (\<lambda>(nfiles, ndirs) st2.
                                     Inr ((nfiles, ndirs), logging (ServerDataRestored nfiles ndirs) st2)))
                      else Inr ((0, 0), st)))))"

text \<open>Step 4, second source: a \<^verbatim>\<open>ServerData\<close> entry inside the deployment backup of step 1.\<close>

definition restore_from_server_backup ::
  "path \<Rightarrow> path option \<Rightarrow> string option \<Rightarrow> nat \<times> nat \<Rightarrow> copy_state \<Rightarrow> (nat \<times> nat) raising" where
  "restore_from_server_backup target_path server_data_dir backup_created counts st =
     (case backup_created of
        None \<Rightarrow> Inr (counts, st)
      | Some backup_name \<Rightarrow>
          (if \<not> truthy backup_created then Inr (counts, st)
           else
             (let server_backup_path = path_parent target_path @ [backup_name];
                  server_data_in_backup = server_backup_path @ [''ServerData'']
              in if path_exists (tree st) server_data_in_backup
                 then
                   (let st1 = logging FoundServerDataInBackup st
                    in and_then
                         (case server_data_dir of
                            Some server_data_path \<Rightarrow>
                              and_then (mkdir_parents server_data_path st1)
                                (\<lambda>u st2. copy_all_items server_data_in_backup server_data_path
                                            (fst counts) (snd counts)
                                            (logging CopyingServerDataToConfigured st2))
                          | None \<Rightarrow>
                              copytree_and_count server_data_in_backup (target_path @ [''ServerData''])
                                (fst counts) (snd counts) (logging CopyingServerDataBack st1))
                         (\<lambda>(nfiles, ndirs) st3.
                            Inr ((nfiles, ndirs), logging (ServerDataFromBackupRestored nfiles ndirs) st3)))
                 else Inr (counts, st))))"

text \<open>Step 4, fallback: a \<^verbatim>\<open>server-data\<close> entry of the extracted tree, when nothing was restored.\<close>

definition restore_from_artifact ::
  "path \<Rightarrow> path \<Rightarrow> path option \<Rightarrow> nat \<times> nat \<Rightarrow> copy_state \<Rightarrow> (nat \<times> nat) raising" where
  "restore_from_artifact source_path target_path server_data_dir counts st =
     (if fst counts = 0 \<and> snd counts = 0
      then
        (let source_data_path = source_path @ [''server-data'']
         in if path_exists (tree st) source_data_path
            then and_then
                   (case server_data_dir of
                      Some server_data_path \<Rightarrow>
                        and_then (mkdir_parents server_data_path st)
                          (\<lambda>u st1. copy_all_items source_data_path server_data_path
                                      (fst counts) (snd counts)
                                      (logging CopyingServerDataFromArtifact st1))
                    | None \<Rightarrow>
                        copytree_and_count source_data_path (target_path @ [''ServerData''])
                          (fst counts) (snd counts) st)
                   (\<lambda>(nfiles, ndirs) st2.
                      Inr ((nfiles, ndirs), logging (ServerDataFromArtifact nfiles ndirs) st2))
            else Inr (counts, st))
      else Inr (counts, st))"

text \<open>Step 5: \<^verbatim>\<open>create_version_file\<close> logs a failure and does not raise.\<close>

definition create_version_file :: "path \<Rightarrow> string \<Rightarrow> copy_state \<Rightarrow> copy_state" where
  "create_version_file target_dir artifact_number st =
     (case write_file (tree st) (target_dir @ [''version.txt'']) artifact_number of
        Inl e \<Rightarrow> logging FailedVersionFile st
      | Inr fs' \<Rightarrow> logging (CreatedVersionFile artifact_number) (st\<lparr>tree := fs'\<rparr>))"

text \<open>The dictionary that \<^verbatim>\<open>copy_server_files\<close> returns.\<close>

record copy_result =
  backup_created :: "string option"
  data_backup_created :: "string option"
  copied_files :: nat
  copied_dirs :: nat
  data_restored_files :: nat
  data_restored_dirs :: nat

definition copy_server_files_body ::
  "path \<Rightarrow> path \<Rightarrow> path option \<Rightarrow> string option \<Rightarrow> copy_state \<Rightarrow> copy_result raising" where
  "copy_server_files_body source_path target_path server_data_dir artifact_number st =
     and_then (backup_server_files target_path artifact_number (logging StartingFileCopy st))
       (\<lambda>backup_created st1.
     and_then (backup_server_data server_data_dir artifact_number st1)
       (\<lambda>data_backup_created st2.
     and_then (install_files source_path target_path st2)
       (\<lambda>(copied_files, copied_dirs) st3.
     and_then (restore_from_data_backup server_data_dir data_backup_created st3)
       (\<lambda>counts_a st4.
     and_then (restore_from_server_backup target_path server_data_dir backup_created counts_a st4)
       (\<lambda>counts_b st5.
     and_then (restore_from_artifact source_path target_path server_data_dir counts_b st5)
       (\<lambda>(data_restored_files, data_restored_dirs) st6.
          (let st7 = logging (FilesCopied copied_files copied_dirs) st6;
               st8 = (case artifact_number of
                        Some (c # cs) \<Rightarrow> create_version_file target_path (c # cs) st7
                      | _ \<Rightarrow> st7)
           in Inr (\<lparr>backup_created = backup_created,
                     data_backup_created = data_backup_created,
                     copied_files = copied_files,
                     copied_dirs = copied_dirs,
                     data_restored_files = data_restored_files,
                     data_restored_dirs = data_restored_dirs\<rparr>, st8))))))))"

text \<open>The \<^verbatim>\<open>try\<close> around the whole body logs the failure and raises it again.\<close>

definition copy_server_files ::
  "node \<Rightarrow> path \<Rightarrow> path \<Rightarrow> path option \<Rightarrow> string option \<Rightarrow> copy_result raising" where
  "copy_server_files fs source_dir target_dir server_data_dir artifact_number =
     (case copy_server_files_body source_dir target_dir server_data_dir artifact_number
             \<lparr>tree = fs, log = []\<rparr> of
        Inl (e, st) \<Rightarrow> Inl (e, logging FileCopyFailed st)
      | Inr r \<Rightarrow> Inr r)"

text \<open>The state in which a call ends, whether it returned or raised.\<close>

definition final_state :: "'a raising \<Rightarrow> copy_state" where
  "final_state r = (case r of Inl (e, st) \<Rightarrow> st | Inr (a, st) \<Rightarrow> st)"

text \<open>
  Reading the log: a message of the first or the second restore source that reports at
  least one restored entry, and the messages of the third source.
\<close>

fun yields_entries :: "log_event \<Rightarrow> bool" where
  "yields_entries (ServerDataRestored nf nd) = (0 < nf + nd)"
| "yields_entries (ServerDataFromBackupRestored nf nd) = (0 < nf + nd)"
| "yields_entries ev = False"

fun from_artifact :: "log_event \<Rightarrow> bool" where
  "from_artifact CopyingServerDataFromArtifact = True"
| "from_artifact (ServerDataFromArtifact nf nd) = True"
| "from_artifact ev = False"

section \<open>Rollback engine\<close>




text \<open>A tree in which the names of every directory are distinct, as in a real file system.\<close>

fun wf_node :: "node \<Rightarrow> bool" where
  "wf_node (File c) = True"
| "wf_node (Dir es) = (distinct (map fst es) \<and> (\<forall>e\<in>set es. wf_node (snd e)))"

text \<open>Two paths neither of which lies inside the other.\<close>

definition unrelated :: "path \<Rightarrow> path \<Rightarrow> bool" where
  "unrelated p q = (\<not> prefix p q \<and> \<not> prefix q p)"


text \<open>
  What the restore step maintains: no message of the third source so far, and a message
  reporting restored entries only with a count that is not zero.
\<close>

definition restored_so_far :: "nat \<times> nat \<Rightarrow> log_event list \<Rightarrow> bool" where
  "restored_so_far counts evs =
     ((\<forall>ev\<in>set evs. \<not> from_artifact ev)
      \<and> ((\<exists>ev\<in>set evs. yields_entries ev) \<longrightarrow> 0 < fst counts + snd counts))"

definition artifact_only_as_fallback :: "log_event list \<Rightarrow> bool" where
  "artifact_only_as_fallback evs =
     ((\<exists>ev\<in>set evs. yields_entries ev) \<longrightarrow> (\<forall>ev\<in>set evs. \<not> from_artifact ev))"


text \<open>
  Steps 3 to 5 of \<^verbatim>\<open>copy_server_files\<close>, after the two backups: the body of the function
  is the two backup steps followed by this.
\<close>

definition install_and_restore ::
  "path \<Rightarrow> path \<Rightarrow> path option \<Rightarrow> string option \<Rightarrow> string option \<Rightarrow> string option
   \<Rightarrow> copy_state \<Rightarrow> copy_result raising" where
  "install_and_restore source_path target_path server_data_dir artifact_number server_backup data_backup st =
     and_then (install_files source_path target_path st)
       (\<lambda>(copied_files, copied_dirs) st3.
     and_then (restore_from_data_backup server_data_dir data_backup st3)
       (\<lambda>counts_a st4.
     and_then (restore_from_server_backup target_path server_data_dir server_backup counts_a st4)
       (\<lambda>counts_b st5.
     and_then (restore_from_artifact source_path target_path server_data_dir counts_b st5)
       (\<lambda>(data_restored_files, data_restored_dirs) st6.
          (let st7 = logging (FilesCopied copied_files copied_dirs) st6;
               st8 = (case artifact_number of
                        Some (c # cs) \<Rightarrow> create_version_file target_path (c # cs) st7
                      | _ \<Rightarrow> st7)
           in Inr (\<lparr>backup_created = server_backup,
                     data_backup_created = data_backup,
                     copied_files = copied_files,
                     copied_dirs = copied_dirs,
                     data_restored_files = data_restored_files,
                     data_restored_dirs = data_restored_dirs\<rparr>, st8))))))"

text \<open>The messages that report a finished backup.\<close>

fun is_backup_event :: "log_event \<Rightarrow> bool" where
  "is_backup_event (BackupCreated n) = True"
| "is_backup_event (DataBackupCreated n) = True"
| "is_backup_event ev = False"

text \<open>
  A step keeps what lies outside the paths \<open>ps\<close>: every path unrelated to all of them
  leads to the same node before and after, and no backup message is added.
\<close>

definition keeps :: "path list \<Rightarrow> copy_state \<Rightarrow> copy_state \<Rightarrow> bool" where
  "keeps ps st st' =
     ((\<forall>q. (\<forall>p\<in>set ps. unrelated q p) \<longrightarrow> lookup (tree st') q = lookup (tree st) q)
      \<and> filter is_backup_event (log st') = filter is_backup_event (log st))"

definition touched :: "path \<Rightarrow> path option \<Rightarrow> path list" where
  "touched target_path server_data_dir =
     target_path # (case server_data_dir of None \<Rightarrow> [] | Some d \<Rightarrow> [d])"




text \<open>
  Backups of a directory are made beside it under names that begin with its name.
  \<open>clear_of_backups d p\<close> says that \<open>p\<close> does not lie at or below an entry beside \<open>d\<close>
  whose name begins with the name of \<open>d\<close>: no backup of \<open>d\<close> can land on \<open>p\<close> or around it.
\<close>

definition clear_of_backups :: "path \<Rightarrow> path \<Rightarrow> bool" where
  "clear_of_backups d p =
     (\<not> prefix (path_parent d) p
      \<or> (case drop (length (path_parent d)) p of
            [] \<Rightarrow> True
          | x # r \<Rightarrow> \<not> prefix (path_name d) x))"

text \<open>Every backup message in the log carries a name that begins with the directory's name.\<close>

definition named_after :: "path \<Rightarrow> path option \<Rightarrow> log_event \<Rightarrow> bool" where
  "named_after t data ev =
     (case ev of
        BackupCreated bn \<Rightarrow> prefix (path_name t) bn
      | DataBackupCreated dbn \<Rightarrow> (case data of None \<Rightarrow> False | Some d \<Rightarrow> prefix (path_name d) dbn)
      | _ \<Rightarrow> True)"


text \<open>Where step 4 writes: the configured data directory, else \<^verbatim>\<open>ServerData\<close> in the deployment.\<close>

definition restore_area :: "path \<Rightarrow> path option \<Rightarrow> path" where
  "restore_area target_path server_data_dir =
     (case server_data_dir of Some d \<Rightarrow> d | None \<Rightarrow> target_path @ [''ServerData''])"


section \<open>Example states\<close>

definition demo_session :: "string \<Rightarrow> response" where
  "demo_session url =
     (if url = list_url
      then Response 200 (''<a href='' @ [CHR 0x22] @ ''./17346-c75a342e/server.7z'' @ [CHR 0x22] @ ''>x</a>''
                         @ ''<a href='' @ [CHR 0x22] @ ''./173-ab12/server.7z'' @ [CHR 0x22] @ ''>x</a>'')
      else if url = list_url @ ''173-ab12/server.7z'' then Response 200 ''BODY173''
      else Response 404 [])"

definition demo_world :: world where
  "demo_world = \<lparr>files = Dir [(''downloads'', Dir [(''17346.7z'', File ''BODY17346'')])], requests = []\<rparr>"




definition is_digit :: "char \<Rightarrow> bool" where
  "is_digit c = (c \<in> set ''0123456789'')"

definition empty_cache_world :: world where
  "empty_cache_world = \<lparr>files = Dir [(''downloads'', Dir [])], requests = []\<rparr>"







text \<open>A deployment beside two of its backups, one of them holding a file that is in use.\<close>

definition catalog_fs :: node where
  "catalog_fs = Dir [(''srv'', Dir [(''server'', Dir [(''version.txt'', File ''3'')]),
                               (''server_backup_1'', Dir [(''run.exe'', File ''one'')]),
                               (''server_backup_2'', Dir [(''ServerData'', Dir [(''db'', File ''two'')])])])]"

definition in_use :: "path \<Rightarrow> bool" where
  "in_use p = (p = [''srv'', ''server_backup_2'', ''ServerData'', ''db''])"







text \<open>
  A deployment that still holds a nested \<^verbatim>\<open>ServerData\<close>, a configured data directory
  with content, and an extracted tree that ships \<^verbatim>\<open>server-data\<close>.
\<close>

definition tiers_fs :: node where
  "tiers_fs = Dir [(''srv'', Dir [(''server'', Dir [(''run.exe'', File ''old''),
                                                 (''ServerData'', Dir [(''old.db'', File ''nested'')])]),
                                 (''data'', Dir [(''world.db'', File ''configured'')])]),
                   (''tmp'', Dir [(''x'', Dir [(''run.exe'', File ''new''),
                                             (''server-data'', Dir [(''default.cfg'', File ''boot'')])])])]"












section \<open>Properties of backup naming\<close>

lemma bak_loop_spec:
  "k \<le> bak_loop fs p base k
   \<and> \<not> path_exists fs (p @ [base @ str_nat (bak_loop fs p base k)])
   \<and> (\<forall>j. k \<le> j \<and> j < bak_loop fs p base k \<longrightarrow> path_exists fs (p @ [base @ str_nat j]))"
proof (induction fs p base k rule: bak_loop.induct)
  case (1 fs p base k)
  show ?case
  proof (cases "path_exists fs (p @ [base @ str_nat k])")
    case True
    then have eq: "bak_loop fs p base k = bak_loop fs p base (k + 1)"
      by (subst bak_loop.simps) simp
    from "1.IH"[OF True]
    have a: "k + 1 \<le> bak_loop fs p base k"
      and b: "\<not> path_exists fs (p @ [base @ str_nat (bak_loop fs p base k)])"
      and c: "\<forall>j. k + 1 \<le> j \<and> j < bak_loop fs p base k \<longrightarrow> path_exists fs (p @ [base @ str_nat j])"
      unfolding eq by blast+
    have "\<forall>j. k \<le> j \<and> j < bak_loop fs p base k \<longrightarrow> path_exists fs (p @ [base @ str_nat j])"
    proof (intro allI impI)
      fix j assume "k \<le> j \<and> j < bak_loop fs p base k"
      then show "path_exists fs (p @ [base @ str_nat j])"
        using True c by (cases "j = k") auto
    qed
    with a b show ?thesis by simp
  next
    case False
    then have "bak_loop fs p base k = k" by (subst bak_loop.simps) simp
    with False show ?thesis by auto
  qed
qed

lemma unique_loop_spec:
  "\<not> path_exists fs (p @ [unique_loop fs p base nm k])
   \<and> (unique_loop fs p base nm k = nm
      \<or> (path_exists fs (p @ [nm])
         \<and> (\<exists>k'\<ge>k. unique_loop fs p base nm k = base @ ''_'' @ str_nat k'
               \<and> (\<forall>j. k \<le> j \<and> j < k' \<longrightarrow> path_exists fs (p @ [base @ ''_'' @ str_nat j])))))"
proof (induction fs p base nm k rule: unique_loop.induct)
  case (1 fs p base nm k)
  show ?case
  proof (cases "path_exists fs (p @ [nm])")
    case True
    then have eq: "unique_loop fs p base nm k
                 = unique_loop fs p base (base @ ''_'' @ str_nat k) (k + 1)"
      by (subst unique_loop.simps) simp
    from "1.IH"[OF True]
    have ih: "\<not> path_exists fs (p @ [unique_loop fs p base nm k])"
      and ih2: "unique_loop fs p base nm k = base @ ''_'' @ str_nat k
        \<or> (path_exists fs (p @ [base @ ''_'' @ str_nat k])
           \<and> (\<exists>k'\<ge>k + 1. unique_loop fs p base nm k = base @ ''_'' @ str_nat k'
               \<and> (\<forall>j. k + 1 \<le> j \<and> j < k' \<longrightarrow> path_exists fs (p @ [base @ ''_'' @ str_nat j]))))"
      unfolding eq by blast+
    from ih2 have "\<exists>k'\<ge>k. unique_loop fs p base nm k = base @ ''_'' @ str_nat k'
               \<and> (\<forall>j. k \<le> j \<and> j < k' \<longrightarrow> path_exists fs (p @ [base @ ''_'' @ str_nat j]))"
    proof
      assume "unique_loop fs p base nm k = base @ ''_'' @ str_nat k"
      then show ?thesis by (intro exI[of _ k]) auto
    next
      assume a: "path_exists fs (p @ [base @ ''_'' @ str_nat k])
           \<and> (\<exists>k'\<ge>k + 1. unique_loop fs p base nm k = base @ ''_'' @ str_nat k'
               \<and> (\<forall>j. k + 1 \<le> j \<and> j < k' \<longrightarrow> path_exists fs (p @ [base @ ''_'' @ str_nat j])))"
      then obtain k' where k': "k + 1 \<le> k'" "unique_loop fs p base nm k = base @ ''_'' @ str_nat k'"
        "\<forall>j. k + 1 \<le> j \<and> j < k' \<longrightarrow> path_exists fs (p @ [base @ ''_'' @ str_nat j])" by blast
      have "\<forall>j. k \<le> j \<and> j < k' \<longrightarrow> path_exists fs (p @ [base @ ''_'' @ str_nat j])"
      proof (intro allI impI)
        fix j assume "k \<le> j \<and> j < k'"
        then show "path_exists fs (p @ [base @ ''_'' @ str_nat j])"
          using a k'(3) by (cases "j = k") auto
      qed
      with k' show ?thesis by (intro exI[of _ k']) simp
    qed
    with ih True show ?thesis by blast
  next
    case False
    then have "unique_loop fs p base nm k = nm" by (subst unique_loop.simps) simp
    with False show ?thesis by auto
  qed
qed







section \<open>Properties of the artifact cache\<close>

lemma put_inside:
  "put fs (d @ q) v = Some fs' \<Longrightarrow> q \<noteq> [] \<Longrightarrow>
   \<exists>m m'. lookup fs d = Some m \<and> put m q v = Some m' \<and> lookup fs' d = Some m'"
proof (induction d arbitrary: fs fs')
  case Nil
  then show ?case by simp
next
  case (Cons x d)
  from Cons.prems obtain y ys where dq: "d @ q = y # ys" by (cases "d @ q") auto
  from Cons.prems obtain es where fs: "fs = Dir es" by (cases fs) auto
  from Cons.prems fs dq obtain c c' where c: "map_of es x = Some c" "put c (d @ q) v = Some c'"
    "fs' = Dir (AList.update x c' es)"
    by (auto split: option.splits)
  from Cons.IH[OF c(2) Cons.prems(2)] obtain m m' where
    "lookup c d = Some m" "put m q v = Some m'" "lookup c' d = Some m'" by blast
  with c fs show ?case by (simp add: update_conv')
qed

lemma put_single:
  "put m [x] v = Some m' \<Longrightarrow> \<exists>es. m = Dir es \<and> m' = Dir (AList.update x v es)"
  by (cases m) auto

lemma listdir_put:
  assumes "put fs (d @ [x]) v = Some fs'"
  shows "listdir fs' d = (if x \<in> set (listdir fs d) then listdir fs d else listdir fs d @ [x])"
proof -
  from put_inside[OF assms] obtain m m' where m: "lookup fs d = Some m" "put m [x] v = Some m'"
    "lookup fs' d = Some m'" by blast
  from put_single[OF m(2)] obtain es where "m = Dir es" "m' = Dir (AList.update x v es)" by blast
  with m show ?thesis by (simp add: listdir_def update_keys)
qed

lemma glob_match_star_empty: "glob_match ps s \<Longrightarrow> glob_match (CHR ''*'' # ps) s"
  by (cases s) auto

lemma glob_match_same_prefix: "glob_match r s \<Longrightarrow> glob_match (a @ r) (a @ s)"
proof (induction a)
  case Nil
  then show ?case by simp
next
  case (Cons c a)
  then have "glob_match (a @ r) (a @ s)" by simp
  then show ?case using glob_match_star_empty[of "a @ r" "a @ s"] by simp
qed

lemma glob_match_own_archive: "glob_match (a @ ''*.7z'') (a @ ''.7z'')"
  by (rule glob_match_same_prefix) simp

text \<open>
  C5. For an artifact number written in decimal digits: when the download directory holds
  a name matching \<^verbatim>\<open><artifact_number>*.7z\<close> and no forced download is asked for,
  \<^verbatim>\<open>download_or_find_artifact\<close> answers the first such path and leaves the world as it
  was, so no URL is fetched. Whenever a call without force returns a path, the next call
  without force returns the same path and changes nothing, in particular not the list of
  fetched URLs.
\<close>

theorem resolve_cache_hit_and_repeat:
  assumes "list_all is_digit artifact_number"
  shows "(glob (files w) download_path (artifact_number @ ''*.7z'') \<noteq> [] \<longrightarrow>
            download_or_find_artifact session download_path artifact_number False w
            = (Inr (download_path @ [hd (glob (files w) download_path (artifact_number @ ''*.7z''))]), w))
       \<and> (\<forall>p w'. download_or_find_artifact session download_path artifact_number False w = (Inr p, w') \<longrightarrow>
            download_or_find_artifact session download_path artifact_number False w' = (Inr p, w'))"
proof (intro conjI allI impI)
  assume "glob (files w) download_path (artifact_number @ ''*.7z'') \<noteq> []"
  then show "download_or_find_artifact session download_path artifact_number False w
            = (Inr (download_path @ [hd (glob (files w) download_path (artifact_number @ ''*.7z''))]), w)"
    by (simp add: download_or_find_artifact_def)
next
  fix p w'
  let ?pat = "artifact_number @ ''*.7z''"
  let ?x = "artifact_number @ ''.7z''"
  assume r: "download_or_find_artifact session download_path artifact_number False w = (Inr p, w')"
  show "download_or_find_artifact session download_path artifact_number False w' = (Inr p, w')"
  proof (cases "glob (files w) download_path ?pat = []")
    case False
    with r show ?thesis by (auto simp: download_or_find_artifact_def)
  next
    case True
    from r True have "\<exists>body. p = download_path @ [?x]
        \<and> write_file (files w) (download_path @ [?x]) body = Inr (files w')"
      by (auto simp: download_or_find_artifact_def get_artifact_hash_from_directory_def Let_def
          split: prod.splits sum.splits response.splits if_splits option.splits)
    then obtain body0 where fs': "p = download_path @ [?x]"
      "write_file (files w) (download_path @ [?x]) body0 = Inr (files w')" by blast
    define fs' where "fs' = files w'"
    from fs'(2) have "put (files w) (download_path @ [?x]) (File body0) = Some fs'"
      by (auto simp: write_file_def fs'_def split: if_splits option.splits)
    from listdir_put[OF this]
    have l: "listdir fs' download_path
          = (if ?x \<in> set (listdir (files w) download_path) then listdir (files w) download_path
             else listdir (files w) download_path @ [?x])" .
    have nx: "?x \<notin> set (listdir (files w) download_path)"
    proof
      assume "?x \<in> set (listdir (files w) download_path)"
      with glob_match_own_archive[of artifact_number]
      have "?x \<in> set (glob (files w) download_path ?pat)" by (simp add: glob_def)
      with True show False by simp
    qed
    from l nx True have "glob fs' download_path ?pat = [?x]"
      using glob_match_own_archive[of artifact_number] by (simp add: glob_def)
    with fs' show ?thesis by (simp add: download_or_find_artifact_def fs'_def)
  qed
qed

text \<open>
  C10. The cache is searched by the prefix pattern: with only \<^verbatim>\<open>17346.7z\<close> in the
  download directory, asking for artifact 173 without force answers the path of
  \<^verbatim>\<open>17346.7z\<close> and fetches nothing, whatever the network would say.
\<close>

theorem prefix_id_served_from_cache:
  "download_or_find_artifact session [''downloads''] ''173'' False
     \<lparr>files = Dir [(''downloads'', Dir [(''17346.7z'', File body)])], requests = []\<rparr>
   = (Inr [''downloads'', ''17346.7z''],
      \<lparr>files = Dir [(''downloads'', Dir [(''17346.7z'', File body)])], requests = []\<rparr>)"
  by (simp add: download_or_find_artifact_def glob_def listdir_def)


theorem resolve_cache_hit_and_repeat_witness:
  "list_all is_digit ''173''
   \<and> download_or_find_artifact demo_session [''downloads''] ''173'' False empty_cache_world
     = (Inr [''downloads'', ''173.7z''],
        \<lparr>files = Dir [(''downloads'', Dir [(''173.7z'', File ''BODY173'')])],
         requests = [list_url, list_url @ ''173-ab12/server.7z'']\<rparr>)
   \<and> download_or_find_artifact demo_session [''downloads''] ''173'' False
        \<lparr>files = Dir [(''downloads'', Dir [(''173.7z'', File ''BODY173'')])],
         requests = [list_url, list_url @ ''173-ab12/server.7z'']\<rparr>
     = (Inr [''downloads'', ''173.7z''],
        \<lparr>files = Dir [(''downloads'', Dir [(''173.7z'', File ''BODY173'')])],
         requests = [list_url, list_url @ ''173-ab12/server.7z'']\<rparr>)"
proof -
  have d: "list_all is_digit ''173''" by (simp add: is_digit_def)
  have f: "download_or_find_artifact demo_session [''downloads''] ''173'' False empty_cache_world
     = (Inr [''downloads'', ''173.7z''],
        \<lparr>files = Dir [(''downloads'', Dir [(''173.7z'', File ''BODY173'')])],
         requests = [list_url, list_url @ ''173-ab12/server.7z'']\<rparr>)"
    by code_simp
  from resolve_cache_hit_and_repeat[OF d, of empty_cache_world "[''downloads'']" demo_session] f d
  show ?thesis by simp
qed

section \<open>Frame properties of the tree operations\<close>

lemma lookup_remove_same: "p \<noteq> [] \<Longrightarrow> lookup (remove fs p) p = None"
proof (induction fs p rule: remove.induct)
  case (4 es x y ys)
  then show ?case by (auto simp: update_conv' split: option.splits)
qed (auto simp: delete_conv')

lemma lookup_remove_other:
  "\<not> prefix p q \<Longrightarrow> \<not> prefix q p \<Longrightarrow> lookup (remove fs p) q = lookup fs q"
proof (induction fs p arbitrary: q rule: remove.induct)
  case (1 n)
  then show ?case by simp
next
  case (2 c x xs)
  then show ?case by simp
next
  case (3 es x)
  then obtain z zs where q: "q = z # zs" by (cases q) auto
  with 3 have "z \<noteq> x" by auto
  with q show ?case by (simp add: delete_conv')
next
  case (4 es x y ys)
  then obtain z zs where q: "q = z # zs" by (cases q) auto
  show ?case
  proof (cases "map_of es x")
    case None
    then show ?thesis by simp
  next
    case (Some c)
    show ?thesis
    proof (cases "z = x")
      case True
      with 4 q have "\<not> prefix (y # ys) zs" "\<not> prefix zs (y # ys)" by auto
      from "4.IH"[OF Some this] Some True q show ?thesis by (simp add: update_conv')
    next
      case False
      with Some q show ?thesis by (simp add: update_conv')
    qed
  qed
qed

lemma sibling_not_prefix: "x \<noteq> y \<Longrightarrow> \<not> prefix (d @ [x]) (d @ [y])"
  by simp


section \<open>Properties of the cache cleanup\<close>




section \<open>Cleanup: what is deleted and what is counted\<close>



text \<open>
  Outside the range of \<^verbatim>\<open>datetime\<close> the cutoff cannot be computed and the exception
  leaves the function.
\<close>

lemma cleanup_cutoff_out_of_range:
  "0 < days \<Longrightarrow>
   timedelta_max_days < days \<or> now - days * microseconds_per_day < 0
     \<or> datetime_max < now - days * microseconds_per_day \<Longrightarrow>
   cleanup_old_files auto_days dl file_time locked now (Some days) fs = Inl OverflowError"
  by (auto simp: cleanup_old_files_def cutoff_of_def Let_def)




section \<open>Properties of backup deletion\<close>

lemma rm_nothing_left:
  "(rm_node locked p n = None) = (\<not> any_locked locked p n)"
  "(rm_entries locked p es = []) = (\<not> list_ex (\<lambda>e. any_locked locked (p @ [fst e]) (snd e)) es)"
proof (induction locked p n and locked p es rule: rm_node_rm_entries.induct)
  case (1 locked p c)
  then show ?case by simp
next
  case (2 locked p es)
  then show ?case by (cases "rm_entries locked p es") auto
next
  case (3 locked p)
  then show ?case by simp
next
  case (4 locked p x c rest)
  then show ?case by (cases "rm_node locked (p @ [x]) c") auto
qed

text \<open>
  C9. \<^verbatim>\<open>delete_backup_directory\<close> on an existing directory none of whose content refuses
  deletion removes the tree and answers \<^verbatim>\<open>True\<close>, leaving every path outside it as it
  was; on a path that does not exist it answers \<^verbatim>\<open>False\<close> and changes nothing; and
  where \<^verbatim>\<open>rmtree\<close> fails on an existing directory the error is raised to the caller,
  not turned into \<^verbatim>\<open>False\<close>.
\<close>

theorem delete_backup_directory_outcomes:
  "(p \<noteq> [] \<and> lookup fs p = Some (Dir es) \<and> \<not> any_locked locked p (Dir es) \<longrightarrow>
      (\<exists>fs'. delete_backup_directory locked fs p = (Inr True, fs')
         \<and> lookup fs' p = None
         \<and> (\<forall>q. \<not> prefix p q \<and> \<not> prefix q p \<longrightarrow> lookup fs' q = lookup fs q)))
   \<and> (\<not> path_exists fs p \<longrightarrow> delete_backup_directory locked fs p = (Inr False, fs))
   \<and> (lookup fs p = Some (Dir es) \<and> any_locked locked p (Dir es) \<longrightarrow>
      (\<exists>fs'. delete_backup_directory locked fs p = (Inl PermissionError, fs')))"
proof (intro conjI impI)
  assume a: "p \<noteq> [] \<and> lookup fs p = Some (Dir es) \<and> \<not> any_locked locked p (Dir es)"
  then have "rm_node locked p (Dir es) = None" using rm_nothing_left(1) by blast
  with a have r: "delete_backup_directory locked fs p = (Inr True, remove fs p)"
    by (simp add: delete_backup_directory_def rmtree_def path_exists_def is_dir_def)
  from a have "lookup (remove fs p) p = None" by (simp add: lookup_remove_same)
  moreover have "\<forall>q. \<not> prefix p q \<and> \<not> prefix q p \<longrightarrow> lookup (remove fs p) q = lookup fs q"
    by (simp add: lookup_remove_other)
  ultimately show "\<exists>fs'. delete_backup_directory locked fs p = (Inr True, fs')
         \<and> lookup fs' p = None
         \<and> (\<forall>q. \<not> prefix p q \<and> \<not> prefix q p \<longrightarrow> lookup fs' q = lookup fs q)"
    using r by blast
next
  assume "\<not> path_exists fs p"
  then show "delete_backup_directory locked fs p = (Inr False, fs)"
    by (simp add: delete_backup_directory_def)
next
  assume a: "lookup fs p = Some (Dir es) \<and> any_locked locked p (Dir es)"
  then have "rm_node locked p (Dir es) \<noteq> None" using rm_nothing_left(1) by blast
  then obtain rest where "rm_node locked p (Dir es) = Some rest" by blast
  with a show "\<exists>fs'. delete_backup_directory locked fs p = (Inl PermissionError, fs')"
    by (simp add: delete_backup_directory_def rmtree_def path_exists_def is_dir_def)
qed

theorem delete_backup_directory_outcomes_witness:
  "delete_backup_directory in_use catalog_fs [''srv'', ''server_backup_1'']
     = (Inr True, Dir [(''srv'', Dir [(''server'', Dir [(''version.txt'', File ''3'')]),
                                   (''server_backup_2'', Dir [(''ServerData'', Dir [(''db'', File ''two'')])])])])
   \<and> delete_backup_directory in_use catalog_fs [''srv'', ''server_backup_3''] = (Inr False, catalog_fs)
   \<and> (\<exists>fs'. delete_backup_directory in_use catalog_fs [''srv'', ''server_backup_2'']
              = (Inl PermissionError, fs'))"
proof -
  have l1: "lookup catalog_fs [''srv'', ''server_backup_1''] = Some (Dir [(''run.exe'', File ''one'')])"
    by (simp add: catalog_fs_def)
  have n1: "\<not> any_locked in_use [''srv'', ''server_backup_1''] (Dir [(''run.exe'', File ''one'')])"
    by (simp add: in_use_def)
  have l2: "lookup catalog_fs [''srv'', ''server_backup_2'']
            = Some (Dir [(''ServerData'', Dir [(''db'', File ''two'')])])"
    by (simp add: catalog_fs_def)
  have n2: "any_locked in_use [''srv'', ''server_backup_2''] (Dir [(''ServerData'', Dir [(''db'', File ''two'')])])"
    by (simp add: in_use_def)
  have l3: "\<not> path_exists catalog_fs [''srv'', ''server_backup_3'']"
    by (simp add: catalog_fs_def path_exists_def)
  have v: "delete_backup_directory in_use catalog_fs [''srv'', ''server_backup_1'']
     = (Inr True, Dir [(''srv'', Dir [(''server'', Dir [(''version.txt'', File ''3'')]),
                                   (''server_backup_2'', Dir [(''ServerData'', Dir [(''db'', File ''two'')])])])])"
    by code_simp
  from delete_backup_directory_outcomes[of "[''srv'', ''server_backup_3'']" catalog_fs "[]" in_use] l3
  have a: "delete_backup_directory in_use catalog_fs [''srv'', ''server_backup_3''] = (Inr False, catalog_fs)"
    by blast
  from delete_backup_directory_outcomes[of "[''srv'', ''server_backup_2'']" catalog_fs
      "[(''ServerData'', Dir [(''db'', File ''two'')])]" in_use] l2 n2
  have b: "\<exists>fs'. delete_backup_directory in_use catalog_fs [''srv'', ''server_backup_2'']
              = (Inl PermissionError, fs')"
    by blast
  from delete_backup_directory_outcomes[of "[''srv'', ''server_backup_1'']" catalog_fs
      "[(''run.exe'', File ''one'')]" in_use] l1 n1
  have c: "\<exists>fs'. delete_backup_directory in_use catalog_fs [''srv'', ''server_backup_1''] = (Inr True, fs')"
    by blast
  from a b c v show ?thesis by simp
qed

section \<open>Properties of the backup listing\<close>





section \<open>The swap on a small deployment\<close>

text \<open>
  C4. The deployment holds \<^verbatim>\<open>a.txt\<close> and an empty \<^verbatim>\<open>sub/\<close>, the extracted tree
  \<^verbatim>\<open>b.txt\<close> and \<^verbatim>\<open>sub/c.txt\<close>; there is no version marker and no data path. For every
  content of the three files and every non-empty artifact number,
  \<^verbatim>\<open>copy_server_files\<close> returns; the old deployment, complete, is the one new entry
  \<^verbatim>\<open>server_backup_<artifact>\<close> beside the deployment, the deployment holds \<^verbatim>\<open>b.txt\<close>,
  \<^verbatim>\<open>sub/c.txt\<close> and a \<^verbatim>\<open>version.txt\<close> with the artifact number. The second part shows the
  merge: copying the extracted tree into a directory that already has \<^verbatim>\<open>sub/\<close> with a
  file keeps that file and adds \<^verbatim>\<open>c.txt\<close>, with no error.
\<close>

theorem apply_on_small_deployment:
  "copy_server_files
     (Dir [(''srv'', Dir [(''server'', Dir [(''a.txt'', File a), (''sub'', Dir [])])]),
           (''tmp'', Dir [(''x'', Dir [(''b.txt'', File b), (''sub'', Dir [(''c.txt'', File c)])])])])
     [''tmp'', ''x''] [''srv'', ''server''] None (Some (k # ks))
   = Inr (\<lparr>backup_created = Some (''server_backup_'' @ k # ks), data_backup_created = None,
            copied_files = 1, copied_dirs = 1, data_restored_files = 0, data_restored_dirs = 0\<rparr>,
          \<lparr>tree =
             Dir [(''srv'', Dir [(''server_backup_'' @ k # ks, Dir [(''a.txt'', File a), (''sub'', Dir [])]),
                               (''server'', Dir [(''b.txt'', File b), (''sub'', Dir [(''c.txt'', File c)]),
                                                (''version.txt'', File (k # ks))])]),
                  (''tmp'', Dir [(''x'', Dir [(''b.txt'', File b), (''sub'', Dir [(''c.txt'', File c)])])])],
           log = [StartingFileCopy, CreatingBackup (''server_backup_'' @ k # ks),
                  BackupCreated (''server_backup_'' @ k # ks), FilesCopied 1 1,
                  CreatedVersionFile (k # ks)]\<rparr>)
   \<and> install_files [''tmp'', ''x''] [''srv'', ''server'']
       \<lparr>tree = Dir [(''srv'', Dir [(''server'', Dir [(''a.txt'', File a), (''sub'', Dir [(''old.txt'', File d)])])]),
                    (''tmp'', Dir [(''x'', Dir [(''b.txt'', File b), (''sub'', Dir [(''c.txt'', File c)])])])],
        log = []\<rparr>
     = Inr ((1, 1),
          \<lparr>tree = Dir [(''srv'', Dir [(''server'', Dir [(''a.txt'', File a),
                                                      (''sub'', Dir [(''old.txt'', File d), (''c.txt'', File c)]),
                                                      (''b.txt'', File b)])]),
                    (''tmp'', Dir [(''x'', Dir [(''b.txt'', File b), (''sub'', Dir [(''c.txt'', File c)])])])],
           log = []\<rparr>)"
proof -
  let ?fs = "Dir [(''srv'', Dir [(''server'', Dir [(''a.txt'', File a), (''sub'', Dir [])])]),
           (''tmp'', Dir [(''x'', Dir [(''b.txt'', File b), (''sub'', Dir [(''c.txt'', File c)])])])]"
  have v: "get_current_version ?fs [''srv'', ''server''] = None"
    by (simp add: get_current_version_def)
  have u: "unique_loop ?fs [''srv''] (''server_backup_'' @ k # ks) (''server_backup_'' @ k # ks) 1
           = ''server_backup_'' @ k # ks"
    by (subst unique_loop.simps) (simp add: path_exists_def)
  have n: "create_backup_name ?fs [''srv'', ''server''] (Some (k # ks)) = [''srv'', ''server_backup_'' @ k # ks]"
    using u by (simp add: create_backup_name_def v path_parent_def path_name_def)
  show ?thesis
    by (simp add: copy_server_files_def copy_server_files_body_def and_then_def logging_def
        backup_server_files_def backup_server_data_def install_files_def mkdir_parents_def
        copy_all_items_def iterdir_def restore_from_data_backup_def restore_from_server_backup_def
        restore_from_artifact_def create_version_file_def n shutil_move_def is_dir_def is_file_def
        path_exists_def path_parent_def path_name_def copy2_def copytree_def makedirs_def
        write_file_def Let_def)
qed

section \<open>Which restore source is used\<close>

lemma copy_items_counts:
  "copy_items src dst names nf nd fs = Inr (nf', nd', fs') \<Longrightarrow> nf \<le> nf' \<and> nd \<le> nd'"
proof (induction names arbitrary: nf nd fs)
  case Nil
  then show ?case by simp
next
  case (Cons x xs)
  then show ?case
    by (fastforce split: if_splits sum.splits prod.splits)
qed

lemma fallback_neutral:
  "\<not> yields_entries ev \<Longrightarrow> \<not> from_artifact ev \<Longrightarrow>
   artifact_only_as_fallback (evs @ [ev]) = artifact_only_as_fallback evs"
  by (auto simp: artifact_only_as_fallback_def)

lemma restored_neutral:
  "\<not> yields_entries ev \<Longrightarrow> \<not> from_artifact ev \<Longrightarrow>
   restored_so_far counts (evs @ [ev]) = restored_so_far counts evs"
  by (auto simp: restored_so_far_def)

lemma restored_fallback: "restored_so_far counts evs \<Longrightarrow> artifact_only_as_fallback evs"
  by (auto simp: restored_so_far_def artifact_only_as_fallback_def)

lemma backup_server_files_log:
  assumes "restored_so_far (0, 0) (log st)"
  shows "restored_so_far (0, 0) (log (final_state (backup_server_files target_path artifact_number st)))"
  using assms
  by (auto simp: backup_server_files_def final_state_def logging_def Let_def restored_so_far_def
      split: option.splits node.splits list.splits sum.splits)

lemma backup_server_data_log:
  assumes "restored_so_far (0, 0) (log st)"
  shows "restored_so_far (0, 0) (log (final_state (backup_server_data server_data_dir artifact_number st)))"
  using assms
  by (auto simp: backup_server_data_def final_state_def logging_def Let_def restored_so_far_def
      split: option.splits node.splits list.splits sum.splits)

lemma mkdir_parents_log: "log (final_state (mkdir_parents p st)) = log st"
  by (auto simp: mkdir_parents_def final_state_def split: sum.splits)

lemma mkdir_parents_log_Inr: "mkdir_parents p st = Inr (u, st') \<Longrightarrow> log st' = log st"
  by (auto simp: mkdir_parents_def split: sum.splits)

lemma mkdir_parents_log_Inl: "mkdir_parents p st = Inl (e, st') \<Longrightarrow> log st' = log st"
  by (auto simp: mkdir_parents_def split: sum.splits)

lemma copy_all_items_Inr:
  "copy_all_items src dst nf nd st = Inr ((nf', nd'), st') \<Longrightarrow>
   log st' = log st \<and> nf \<le> nf' \<and> nd \<le> nd'"
  by (auto simp: copy_all_items_def split: sum.splits prod.splits dest: copy_items_counts)

lemma copy_all_items_Inl:
  "copy_all_items src dst nf nd st = Inl (e, st') \<Longrightarrow> log st' = log st"
  by (auto simp: copy_all_items_def split: sum.splits prod.splits)

lemma copytree_and_count_Inr:
  "copytree_and_count src dst nf nd st = Inr ((nf', nd'), st') \<Longrightarrow>
   log st' = log st \<and> nf \<le> nf' \<and> nd \<le> nd'"
  by (auto simp: copytree_and_count_def split: sum.splits prod.splits option.splits node.splits)

lemma copytree_and_count_Inl:
  "copytree_and_count src dst nf nd st = Inl (e, st') \<Longrightarrow> log st' = log st"
  by (auto simp: copytree_and_count_def split: sum.splits prod.splits option.splits node.splits)

lemma install_files_log:
  "log (final_state (install_files source_path target_path st)) = log st"
  by (auto simp: install_files_def and_then_def final_state_def mkdir_parents_def copy_all_items_def
      split: sum.splits prod.splits)

lemma restore_from_data_backup_log:
  assumes "restored_so_far (0, 0) (log st)"
  shows "case restore_from_data_backup server_data_dir data_backup_name st of
           Inl (e, st') \<Rightarrow> restored_so_far (0, 0) (log st')
         | Inr (counts, st') \<Rightarrow> restored_so_far counts (log st')"
  using assms
  by (auto simp: restore_from_data_backup_def and_then_def mkdir_parents_def copy_all_items_def
      logging_def restored_so_far_def Let_def
      split: option.splits sum.splits prod.splits)

lemma restore_from_server_backup_log:
  assumes "restored_so_far counts (log st)"
  shows "case restore_from_server_backup target_path server_data_dir backup_name counts st of
           Inl (e, st') \<Rightarrow> (\<forall>ev\<in>set (log st'). \<not> from_artifact ev)
         | Inr (counts', st') \<Rightarrow> restored_so_far counts' (log st')"
  using assms
  by (auto simp: restore_from_server_backup_def and_then_def mkdir_parents_def copy_all_items_def
      copytree_and_count_def logging_def restored_so_far_def Let_def
      split: option.splits sum.splits prod.splits node.splits
      dest!: copy_items_counts)

lemma restore_from_artifact_log:
  assumes "restored_so_far counts (log st)"
  shows "artifact_only_as_fallback
           (log (final_state (restore_from_artifact source_path target_path server_data_dir counts st)))"
proof (cases "fst counts = 0 \<and> snd counts = 0")
  case False
  then have "restore_from_artifact source_path target_path server_data_dir counts st = Inr (counts, st)"
    by (auto simp: restore_from_artifact_def)
  with assms show ?thesis by (simp add: final_state_def restored_fallback)
next
  case True
  with assms have "\<forall>ev\<in>set (log st). \<not> yields_entries ev"
    by (auto simp: restored_so_far_def)
  then have "\<forall>ev\<in>set (log (final_state
        (restore_from_artifact source_path target_path server_data_dir counts st))). \<not> yields_entries ev"
    by (auto simp: restore_from_artifact_def and_then_def mkdir_parents_def copy_all_items_def
        copytree_and_count_def logging_def final_state_def Let_def
        split: option.splits sum.splits prod.splits node.splits)
  then show ?thesis by (simp add: artifact_only_as_fallback_def)
qed

lemma copy_server_files_body_log:
  "artifact_only_as_fallback
     (log (final_state (copy_server_files_body source_path target_path server_data_dir artifact_number
                          \<lparr>tree = fs, log = []\<rparr>)))"
proof -
  let ?st0 = "logging StartingFileCopy \<lparr>tree = fs, log = []\<rparr>"
  have p0: "restored_so_far (0, 0) (log ?st0)"
    by (simp add: restored_so_far_def logging_def)
  show ?thesis
  proof (cases "backup_server_files target_path artifact_number ?st0")
    case (Inl x)
    from backup_server_files_log[OF p0, of target_path artifact_number] Inl
    show ?thesis
      by (cases x) (simp add: copy_server_files_body_def and_then_def final_state_def restored_fallback)
  next
    case r1: (Inr x1)
    obtain bc st1 where x1: "x1 = (bc, st1)" by (cases x1)
    from backup_server_files_log[OF p0, of target_path artifact_number] r1 x1
    have p1: "restored_so_far (0, 0) (log st1)" by (simp add: final_state_def)
    show ?thesis
    proof (cases "backup_server_data server_data_dir artifact_number st1")
      case (Inl x)
      from backup_server_data_log[OF p1, of server_data_dir artifact_number] Inl r1 x1
      show ?thesis
        by (cases x) (simp add: copy_server_files_body_def and_then_def final_state_def restored_fallback)
    next
      case r2: (Inr x2)
      obtain dbc st2 where x2: "x2 = (dbc, st2)" by (cases x2)
      from backup_server_data_log[OF p1, of server_data_dir artifact_number] r2 x2
      have p2: "restored_so_far (0, 0) (log st2)" by (simp add: final_state_def)
      show ?thesis
      proof (cases "install_files source_path target_path st2")
        case (Inl x)
        from install_files_log[of source_path target_path st2] Inl p2 r1 x1 r2 x2
        show ?thesis
          by (cases x) (simp add: copy_server_files_body_def and_then_def final_state_def restored_fallback)
      next
        case r3: (Inr x3)
        obtain cf cd st3 where x3: "x3 = ((cf, cd), st3)" by (cases x3) auto
        from install_files_log[of source_path target_path st2] r3 x3 p2
        have p3: "restored_so_far (0, 0) (log st3)" by (simp add: final_state_def)
        show ?thesis
        proof (cases "restore_from_data_backup server_data_dir dbc st3")
          case (Inl x)
          from restore_from_data_backup_log[OF p3, of server_data_dir dbc] Inl r1 x1 r2 x2 r3 x3
          show ?thesis
            by (cases x) (simp add: copy_server_files_body_def and_then_def final_state_def restored_fallback)
        next
          case r4: (Inr x4)
          obtain ca st4 where x4: "x4 = (ca, st4)" by (cases x4)
          from restore_from_data_backup_log[OF p3, of server_data_dir dbc] r4 x4
          have p4: "restored_so_far ca (log st4)" by simp
          show ?thesis
          proof (cases "restore_from_server_backup target_path server_data_dir bc ca st4")
            case (Inl x)
            from restore_from_server_backup_log[OF p4, of target_path server_data_dir bc] Inl
              r1 x1 r2 x2 r3 x3 r4 x4
            show ?thesis
              by (cases x)
                 (simp add: copy_server_files_body_def and_then_def final_state_def
                    artifact_only_as_fallback_def)
          next
            case r5: (Inr x5)
            obtain cb st5 where x5: "x5 = (cb, st5)" by (cases x5)
            from restore_from_server_backup_log[OF p4, of target_path server_data_dir bc] r5 x5
            have p5: "restored_so_far cb (log st5)" by simp
            from restore_from_artifact_log[OF p5, of source_path target_path server_data_dir]
            have p6: "artifact_only_as_fallback
                (log (final_state (restore_from_artifact source_path target_path server_data_dir cb st5)))" .
            show ?thesis
            proof (cases "restore_from_artifact source_path target_path server_data_dir cb st5")
              case (Inl x)
              with p6 r1 x1 r2 x2 r3 x3 r4 x4 r5 x5 show ?thesis
                by (cases x) (simp add: copy_server_files_body_def and_then_def final_state_def)
            next
              case r6: (Inr x6)
              obtain rf rd st6 where x6: "x6 = ((rf, rd), st6)" by (cases x6) auto
              from p6 r6 x6 have q: "artifact_only_as_fallback (log st6)" by (simp add: final_state_def)
              have "artifact_only_as_fallback
                      (log (case artifact_number of
                              Some (c # cs) \<Rightarrow> create_version_file target_path (c # cs)
                                                  (logging (FilesCopied cf cd) st6)
                            | _ \<Rightarrow> logging (FilesCopied cf cd) st6))"
                using q
                by (auto simp: create_version_file_def logging_def fallback_neutral
                    artifact_only_as_fallback_def
                    split: option.splits list.splits sum.splits)
              with r1 x1 r2 x2 r3 x3 r4 x4 r5 x5 r6 x6 show ?thesis
                by (simp add: copy_server_files_body_def and_then_def final_state_def Let_def)
            qed
          qed
        qed
      qed
    qed
  qed
qed

text \<open>
  C1 as the code has it. In every run of \<^verbatim>\<open>copy_server_files\<close>, returned or aborted:
  when the data backup of step 2 or the \<^verbatim>\<open>ServerData\<close> of the deployment backup reports
  at least one restored entry, the \<^verbatim>\<open>server-data\<close> of the extracted tree is not used as
  a restore source (none of its messages is logged).
\<close>

theorem artifact_data_is_fallback:
  "(\<exists>ev\<in>set (log (final_state (copy_server_files fs source_dir target_dir server_data_dir artifact_number))).
      yields_entries ev)
   \<longrightarrow> (\<forall>ev\<in>set (log (final_state (copy_server_files fs source_dir target_dir server_data_dir artifact_number))).
         \<not> from_artifact ev)"
proof -
  from copy_server_files_body_log[of source_dir target_dir server_data_dir artifact_number fs]
  have "artifact_only_as_fallback
          (log (final_state (copy_server_files fs source_dir target_dir server_data_dir artifact_number)))"
    by (auto simp: copy_server_files_def final_state_def logging_def fallback_neutral
        split: sum.splits prod.splits)
  then show ?thesis by (simp add: artifact_only_as_fallback_def)
qed

theorem artifact_data_is_fallback_witness:
  "ServerDataRestored 1 0
     \<in> set (log (final_state (copy_server_files tiers_fs [''tmp'', ''x''] [''srv'', ''server'']
                                 (Some [''srv'', ''data'']) (Some ''9''))))
   \<and> yields_entries (ServerDataRestored 1 0)
   \<and> CopyingServerDataFromArtifact
     \<notin> set (log (final_state (copy_server_files tiers_fs [''tmp'', ''x''] [''srv'', ''server'']
                                 (Some [''srv'', ''data'']) (Some ''9''))))
   \<and> ServerDataFromArtifact 1 0
     \<notin> set (log (final_state (copy_server_files tiers_fs [''tmp'', ''x''] [''srv'', ''server'']
                                 (Some [''srv'', ''data'']) (Some ''9''))))
   \<and> path_exists tiers_fs [''tmp'', ''x'', ''server-data'']"
proof -
  have a: "ServerDataRestored 1 0
     \<in> set (log (final_state (copy_server_files tiers_fs [''tmp'', ''x''] [''srv'', ''server'']
                                 (Some [''srv'', ''data'']) (Some ''9''))))"
    by code_simp
  have b: "yields_entries (ServerDataRestored 1 0)" by simp
  have c: "path_exists tiers_fs [''tmp'', ''x'', ''server-data'']" by code_simp
  from artifact_data_is_fallback[of tiers_fs "[''tmp'', ''x'']" "[''srv'', ''server'']"
      "Some [''srv'', ''data'']" "Some ''9''"] a b
  have d: "\<forall>ev\<in>set (log (final_state (copy_server_files tiers_fs [''tmp'', ''x''] [''srv'', ''server'']
                                      (Some [''srv'', ''data'']) (Some ''9'')))).
         \<not> from_artifact ev"
    by blast
  from d have e: "CopyingServerDataFromArtifact
     \<notin> set (log (final_state (copy_server_files tiers_fs [''tmp'', ''x''] [''srv'', ''server'']
                                 (Some [''srv'', ''data'']) (Some ''9''))))"
    by (metis from_artifact.simps(1))
  from d have f: "ServerDataFromArtifact 1 0
     \<notin> set (log (final_state (copy_server_files tiers_fs [''tmp'', ''x''] [''srv'', ''server'']
                                 (Some [''srv'', ''data'']) (Some ''9''))))"
    by (metis from_artifact.simps(2))
  from a b c e f show ?thesis by blast
qed

text \<open>
  The first source does not exclude the second: in the same run the data backup restores
  one entry and the \<^verbatim>\<open>ServerData\<close> of the deployment backup is copied as well, so that the
  data directory ends with both files and the count is 2.
\<close>

theorem second_source_after_first_counterexample:
  "\<not> (ServerDataRestored 1 0
        \<in> set (log (final_state (copy_server_files tiers_fs [''tmp'', ''x''] [''srv'', ''server'']
                                    (Some [''srv'', ''data'']) (Some ''9''))))
      \<longrightarrow> FoundServerDataInBackup
            \<notin> set (log (final_state (copy_server_files tiers_fs [''tmp'', ''x''] [''srv'', ''server'']
                                        (Some [''srv'', ''data'']) (Some ''9''))))
          \<and> ServerDataFromBackupRestored 2 0
            \<notin> set (log (final_state (copy_server_files tiers_fs [''tmp'', ''x''] [''srv'', ''server'']
                                        (Some [''srv'', ''data'']) (Some ''9'')))))"
  by code_simp

section \<open>Effect of writing, creating, moving and copying\<close>

lemma lookup_put_below:
  "put fs p v = Some fs' \<Longrightarrow> lookup fs' (p @ r) = lookup v r"
proof (induction fs p v arbitrary: fs' rule: put.induct)
  case (4 es x y ys v)
  from "4.prems" obtain c c' where c: "map_of es x = Some c" "put c (y # ys) v = Some c'"
    "fs' = Dir (AList.update x c' es)"
    by (auto split: option.splits)
  from "4.IH"[OF c(1) c(2)] have "lookup c' ((y # ys) @ r) = lookup v r" .
  with c show ?case by (simp add: update_conv')
qed (auto simp: update_conv')

lemma lookup_put_other:
  "put fs p v = Some fs' \<Longrightarrow> \<not> prefix p q \<Longrightarrow> \<not> prefix q p \<Longrightarrow> lookup fs' q = lookup fs q"
proof (induction fs p v arbitrary: fs' q rule: put.induct)
  case (1 n v)
  then show ?case by simp
next
  case (2 c x xs v)
  then show ?case by simp
next
  case (3 es x v)
  then obtain z zs where q: "q = z # zs" by (cases q) auto
  with 3 have "z \<noteq> x" by auto
  with 3 q show ?case by (auto simp: update_conv')
next
  case (4 es x y ys v)
  then obtain z zs where q: "q = z # zs" by (cases q) auto
  from "4.prems"(1) obtain c c' where c: "map_of es x = Some c" "put c (y # ys) v = Some c'"
    "fs' = Dir (AList.update x c' es)"
    by (auto split: option.splits)
  show ?case
  proof (cases "z = x")
    case True
    with 4 q have "\<not> prefix (y # ys) zs" "\<not> prefix zs (y # ys)" by auto
    from "4.IH"[OF c(1) c(2) this] c True q show ?thesis by (simp add: update_conv')
  next
    case False
    with c q show ?thesis by (simp add: update_conv')
  qed
qed

lemma lookup_exists_prefix: "lookup fs (p @ r) \<noteq> None \<Longrightarrow> lookup fs p \<noteq> None"
  by (auto simp: lookup_append split: option.splits)

lemma mkdirs_result:
  "mkdirs fs p = Inr fs' \<Longrightarrow>
   lookup fs' p = (case lookup fs p of Some n \<Rightarrow> Some n | None \<Rightarrow> Some (Dir []))"
proof (induction fs p arbitrary: fs' rule: mkdirs.induct)
  case (4 es x xs)
  let ?c0 = "case map_of es x of None \<Rightarrow> Dir [] | Some c \<Rightarrow> c"
  from "4.prems" obtain c' where c': "mkdirs ?c0 xs = Inr c'" "fs' = Dir (AList.update x c' es)"
    by (auto split: sum.splits)
  from "4.IH"[OF c'(1)]
  have ih: "lookup c' xs = (case lookup ?c0 xs of Some n \<Rightarrow> Some n | None \<Rightarrow> Some (Dir []))" .
  show ?case
  proof (cases "map_of es x")
    case None
    with ih c' show ?thesis by (cases xs) (auto simp: update_conv')
  next
    case (Some c)
    with ih c' show ?thesis by (simp add: update_conv')
  qed
qed auto

lemma mkdirs_frame:
  "mkdirs fs p = Inr fs' \<Longrightarrow> \<not> prefix q p \<Longrightarrow> lookup fs' q = lookup fs q"
proof (induction fs p arbitrary: fs' q rule: mkdirs.induct)
  case (4 es x xs)
  let ?c0 = "case map_of es x of None \<Rightarrow> Dir [] | Some c \<Rightarrow> c"
  from "4.prems" obtain c' where c': "mkdirs ?c0 xs = Inr c'" "fs' = Dir (AList.update x c' es)"
    by (auto split: sum.splits)
  from "4.prems" obtain z zs where q: "q = z # zs" by (cases q) auto
  show ?case
  proof (cases "z = x")
    case False
    with c' q show ?thesis by (simp add: update_conv')
  next
    case True
    with "4.prems" q have np: "\<not> prefix zs xs" by simp
    from "4.IH"[OF c'(1) np] have ih: "lookup c' zs = lookup ?c0 zs" .
    show ?thesis
    proof (cases "map_of es x")
      case None
      from np have "zs \<noteq> []" by auto
      then have "lookup (Dir []) zs = None" by (cases zs) auto
      with None ih c' True q show ?thesis by (simp add: update_conv')
    next
      case (Some c)
      with ih c' True q show ?thesis by (simp add: update_conv')
    qed
  qed
qed auto


lemma shutil_move_fresh:
  assumes m: "shutil_move fs src dst = Inr fs'"
    and fresh: "\<not> path_exists fs dst"
  shows "lookup fs' dst = lookup fs src"
    and "lookup fs src \<noteq> None"
    and "lookup fs' src = None"
    and "\<And>q. unrelated q src \<Longrightarrow> unrelated q dst \<Longrightarrow> lookup fs' q = lookup fs q"
proof -
  from m obtain n where n: "lookup fs src = Some n"
    by (auto simp: shutil_move_def split: option.splits)
  from fresh have nd: "\<not> is_dir fs dst" by (auto simp: is_dir_def path_exists_def)
  from m n nd have s: "src \<noteq> []" "\<not> prefix src dst"
    by (auto simp: shutil_move_def Let_def split: if_splits)
  have nds: "\<not> prefix dst src"
  proof
    assume "prefix dst src"
    then obtain r where "src = dst @ r" by (auto simp: prefix_def)
    with n lookup_exists_prefix[of fs dst r] fresh show False by (simp add: path_exists_def)
  qed
  from m n nd s fresh obtain fs1 where fs1: "put fs1 dst n = Some fs'"
    "\<And>q. \<not> prefix q (path_parent dst) \<Longrightarrow> lookup fs1 q = lookup (remove fs src) q"
    by (cases n) (auto simp: shutil_move_def Let_def split: if_splits option.splits sum.splits
        dest: mkdirs_frame)
  from lookup_put_below[OF fs1(1), of "[]"] n show "lookup fs' dst = lookup fs src" by simp
  from n show "lookup fs src \<noteq> None" by simp
  have pp: "\<not> prefix q (path_parent dst)" if "\<not> prefix q dst" for q
  proof
    assume "prefix q (path_parent dst)"
    then have "prefix q dst"
      unfolding path_parent_def by (meson prefix_order.trans prefixeq_butlast)
    with that show False by simp
  qed
  from s(2) have "lookup fs1 src = lookup (remove fs src) src" by (intro fs1(2) pp)
  with s(1) have "lookup fs1 src = None" by (simp add: lookup_remove_same)
  with lookup_put_other[OF fs1(1) nds s(2)] show "lookup fs' src = None" by simp
  fix q
  assume u: "unrelated q src" "unrelated q dst"
  then have "lookup fs' q = lookup fs1 q"
    by (intro lookup_put_other[OF fs1(1)]) (auto simp: unrelated_def)
  also from u have "\<dots> = lookup (remove fs src) q"
    by (intro fs1(2) pp) (auto simp: unrelated_def)
  also from u have "\<dots> = lookup fs q"
    by (intro lookup_remove_other) (auto simp: unrelated_def)
  finally show "lookup fs' q = lookup fs q" .
qed

lemma update_fresh_key: "x \<notin> fst ` set ds \<Longrightarrow> AList.update x v ds = ds @ [(x, v)]"
  by (induction ds) auto

lemma merge_into_fresh:
  "d = None \<Longrightarrow> wf_node c \<Longrightarrow> merge_node ok x c d = ([], Some c)"
  "wf_node (Dir es) \<Longrightarrow> fst ` set es \<inter> fst ` set ds = {} \<Longrightarrow> merge_entries ok es ds = ([], ds @ es)"
proof (induction ok x c d and ok es ds rule: merge_node_merge_entries.induct)
  case (1 ok x c d)
  then show ?case by simp
next
  case (2 ok x es d)
  then show ?case by simp
next
  case (3 ok ds)
  then show ?case by simp
next
  case (4 ok x c rest ds)
  from "4.prems" have xn: "x \<notin> fst ` set ds" by auto
  then have mo: "map_of ds x = None" by (simp add: map_of_eq_None_iff)
  from "4.prems" have wc: "wf_node c" by simp
  from "4.IH"(1)[OF mo wc] have mn: "merge_node ok x c (map_of ds x) = ([], Some c)" .
  from "4.prems" have wr: "wf_node (Dir rest)" by simp
  from "4.prems" have dj: "fst ` set rest \<inter> fst ` set (AList.update x c ds) = {}"
    by (auto simp: update_fresh_key[OF xn])
  from "4.IH"(2)[OF mn[symmetric] wr] dj
  have "merge_entries ok rest (AList.update x c ds) = ([], AList.update x c ds @ rest)" by simp
  with mn show ?case by (simp add: update_fresh_key[OF xn])
qed

lemma copytree_into_fresh:
  assumes c: "copytree fs src dst ok = Inr fs'"
    and fresh: "\<not> path_exists fs dst"
    and n: "lookup fs src = Some n"
    and wf: "wf_node n"
  shows "lookup fs' dst = Some n"
    and "\<And>q. unrelated q dst \<Longrightarrow> lookup fs' q = lookup fs q"
proof -
  from c n obtain es where es: "n = Dir es" by (cases n) (auto simp: copytree_def)
  from c n es obtain fs1 ds ds' where s:
    "mkdirs fs dst = Inr fs1" "lookup fs1 dst = Some (Dir ds)"
    "merge_entries ok es ds = ([], ds')" "put fs1 dst (Dir ds') = Some fs'"
    by (auto simp: copytree_def makedirs_def split: sum.splits option.splits node.splits
        prod.splits if_splits)
  from mkdirs_result[OF s(1)] fresh s(2) have "ds = []" by (simp add: path_exists_def)
  with merge_into_fresh(2)[of es "[]" ok] wf es s(3) have "ds' = es" by simp
  with lookup_put_below[OF s(4), of "[]"] es show "lookup fs' dst = Some n" by simp
  fix q assume u: "unrelated q dst"
  then have "lookup fs' q = lookup fs1 q"
    by (intro lookup_put_other[OF s(4)]) (auto simp: unrelated_def)
  also from u have "\<dots> = lookup fs q"
    by (intro mkdirs_frame[OF s(1)]) (auto simp: unrelated_def)
  finally show "lookup fs' q = lookup fs q" .
qed

lemma wf_lookup: "wf_node fs \<Longrightarrow> lookup fs p = Some n \<Longrightarrow> wf_node n"
proof (induction p arbitrary: fs)
  case Nil
  then show ?case by simp
next
  case (Cons x xs)
  then obtain es c where e: "fs = Dir es" "map_of es x = Some c" "lookup c xs = Some n"
    by (cases fs) (auto split: option.splits)
  from e(2) have "(x, c) \<in> set es" by (rule map_of_SomeD)
  with Cons.prems(1) e(1) have "wf_node c" by auto
  from Cons.IH[OF this e(3)] show ?case .
qed

section \<open>Properties of rollback\<close>

lemma backup_name_shape:
  "\<exists>nm. create_backup_name fs t a = path_parent t @ [nm]
        \<and> \<not> path_exists fs (path_parent t @ [nm])
        \<and> (\<forall>v. get_current_version fs t = Some v \<longrightarrow> prefix (path_name t @ ''_backup_'' @ v) nm)"
proof (cases "get_current_version fs t")
  case (Some v)
  from unique_loop_spec[of fs "path_parent t" "path_name t @ ''_backup_'' @ v" "path_name t @ ''_backup_'' @ v" 1]
  show ?thesis using Some by (auto simp: create_backup_name_def Let_def)
next
  case None
  show ?thesis
  proof (cases "\<exists>c cs. a = Some (c # cs)")
    case True
    then obtain c cs where a: "a = Some (c # cs)" by blast
    from unique_loop_spec[of fs "path_parent t" "path_name t @ ''_backup_'' @ (c # cs)" "path_name t @ ''_backup_'' @ (c # cs)" 1]
    show ?thesis using None a by (auto simp: create_backup_name_def Let_def)
  next
    case False
    then have b: "create_backup_name fs t a
        = path_parent t @ [(path_name t @ ''_bak'') @ str_nat (bak_loop fs (path_parent t) (path_name t @ ''_bak'') 1)]"
      using None by (auto simp: create_backup_name_def Let_def split: option.splits list.splits)
    from bak_loop_spec[of 1 fs "path_parent t" "path_name t @ ''_bak''"]
    show ?thesis unfolding b using None by auto
  qed
qed






section \<open>What the swap leaves alone\<close>

lemma body_as_steps:
  "copy_server_files_body source_path target_path server_data_dir artifact_number st =
     and_then (backup_server_files target_path artifact_number (logging StartingFileCopy st))
       (\<lambda>server_backup st1.
          and_then (backup_server_data server_data_dir artifact_number st1)
            (\<lambda>data_backup st2.
               install_and_restore source_path target_path server_data_dir artifact_number
                 server_backup data_backup st2))"
  by (simp add: copy_server_files_body_def install_and_restore_def)

lemma unrelated_below: "unrelated q p \<Longrightarrow> unrelated q (p @ r)"
proof -
  assume u: "unrelated q p"
  have "\<not> prefix (p @ r) q"
  proof
    assume "prefix (p @ r) q"
    then have "prefix p q" by (rule append_prefixD)
    with u show False by (simp add: unrelated_def)
  qed
  moreover have "\<not> prefix q (p @ r)"
  proof
    assume "prefix q (p @ r)"
    then have "prefix q p \<or> prefix p q" by (auto simp: prefix_append)
    with u show False by (simp add: unrelated_def)
  qed
  ultimately show ?thesis by (simp add: unrelated_def)
qed

lemma unrelated_sym: "unrelated p q = unrelated q p"
  by (auto simp: unrelated_def)

lemma write_file_frame:
  "write_file fs p c = Inr fs' \<Longrightarrow> unrelated q p \<Longrightarrow> lookup fs' q = lookup fs q"
  by (auto simp: write_file_def unrelated_def split: if_splits option.splits
      intro: lookup_put_other)

lemma copy2_frame:
  "copy2 fs src dst = Inr fs' \<Longrightarrow> unrelated q dst \<Longrightarrow> lookup fs' q = lookup fs q"
  by (auto simp: copy2_def Let_def split: option.splits node.splits if_splits
      intro: write_file_frame unrelated_below)

lemma copytree_frame:
  assumes "unrelated q dst"
  shows "lookup (case copytree fs src dst ok of Inl (e, fs') \<Rightarrow> fs' | Inr fs' \<Rightarrow> fs') q = lookup fs q"
proof -
  have m: "lookup fs1 q = lookup fs q" if "makedirs fs dst ok = Inr fs1" for fs1
    using that assms
    by (auto simp: makedirs_def unrelated_def split: if_splits intro: mkdirs_frame)
  have p: "lookup fs2 q = lookup fs1 q" if "put fs1 dst v = Some fs2" for fs1 fs2 v
    using that assms by (auto simp: unrelated_def intro: lookup_put_other)
  have mp: "lookup fs2 q = lookup fs q"
    if "makedirs fs dst ok = Inr fs1" "put fs1 dst v = Some fs2" for fs1 fs2 v
    using m[OF that(1)] p[OF that(2)] by simp
  show ?thesis
    by (auto simp: copytree_def split: option.splits node.splits sum.splits prod.splits
        dest: m mp)
qed

lemma copytree_frame_Inr:
  "copytree fs src dst ok = Inr fs' \<Longrightarrow> unrelated q dst \<Longrightarrow> lookup fs' q = lookup fs q"
  using copytree_frame[of q dst fs src ok] by simp

lemma copytree_frame_Inl:
  "copytree fs src dst ok = Inl (e, fs') \<Longrightarrow> unrelated q dst \<Longrightarrow> lookup fs' q = lookup fs q"
  using copytree_frame[of q dst fs src ok] by simp

lemma copy_items_frame:
  assumes "unrelated q dst"
  shows "lookup (case copy_items src dst names nf nd fs of
                   Inl (e, fs') \<Rightarrow> fs' | Inr (a, b, fs') \<Rightarrow> fs') q = lookup fs q"
proof (induction names arbitrary: nf nd fs)
  case Nil
  then show ?case by simp
next
  case (Cons x xs)
  from assms have u: "unrelated q (dst @ [x])" by (rule unrelated_below)
  show ?case
  proof (cases "is_file fs (src @ [x])")
    case True
    show ?thesis
    proof (cases "copy2 fs (src @ [x]) (dst @ [x])")
      case (Inl e)
      with True show ?thesis by simp
    next
      case (Inr fs')
      from copy2_frame[OF Inr u] Cons.IH[of "nf + 1" nd fs'] True Inr show ?thesis by simp
    qed
  next
    case nf: False
    show ?thesis
    proof (cases "is_dir fs (src @ [x])")
      case False
      with nf Cons.IH[of nf nd fs] show ?thesis by simp
    next
      case True
      show ?thesis
      proof (cases "copytree fs (src @ [x]) (dst @ [x]) True")
        case (Inl a)
        obtain e fs' where a: "a = (e, fs')" by (cases a)
        from copytree_frame_Inl[OF Inl[unfolded a] u] nf True Inl a show ?thesis by simp
      next
        case (Inr fs')
        from copytree_frame_Inr[OF Inr u] Cons.IH[of nf "nd + 1" fs'] nf True Inr
        show ?thesis by simp
      qed
    qed
  qed
qed

lemma final_state_Inr: "final_state (Inr (a, st)) = st"
  by (simp add: final_state_def)

lemma final_state_Inl: "final_state (Inl (e, st)) = st"
  by (simp add: final_state_def)

lemma keeps_refl: "keeps ps st st"
  by (simp add: keeps_def)

lemma keeps_trans: "keeps ps a b \<Longrightarrow> keeps ps b c \<Longrightarrow> keeps ps a c"
  by (simp add: keeps_def)

lemma keeps_mono: "keeps ps a b \<Longrightarrow> set ps \<subseteq> set ps' \<Longrightarrow> keeps ps' a b"
  by (auto simp: keeps_def)

lemma keeps_logging:
  "keeps ps st0 st \<Longrightarrow> \<not> is_backup_event ev \<Longrightarrow> keeps ps st0 (logging ev st)"
  by (simp add: keeps_def logging_def)

lemma keeps_and_then:
  assumes "keeps ps st0 (final_state m)"
    and "\<And>a st'. keeps ps st0 st' \<Longrightarrow> keeps ps st0 (final_state (f a st'))"
  shows "keeps ps st0 (final_state (and_then m f))"
proof (cases m)
  case (Inl x)
  with assms(1) show ?thesis by (simp add: and_then_def final_state_def)
next
  case (Inr x)
  obtain a st' where x: "x = (a, st')" by (cases x)
  with Inr assms(1) have "keeps ps st0 st'" by (simp add: final_state_def)
  from assms(2)[OF this] Inr x show ?thesis by (simp add: and_then_def)
qed

lemma keeps_mkdir_parents:
  assumes "keeps ps st0 st" and "p \<in> set ps"
  shows "keeps ps st0 (final_state (mkdir_parents p st))"
proof -
  have "keeps ps st (final_state (mkdir_parents p st))"
    using assms(2)
    by (auto simp: keeps_def mkdir_parents_def final_state_def unrelated_def split: sum.splits
        intro!: mkdirs_frame)
  with assms(1) show ?thesis by (rule keeps_trans)
qed

lemma keeps_copy_all_items:
  assumes "keeps ps st0 st" and "dst \<in> set ps"
  shows "keeps ps st0 (final_state (copy_all_items src dst nf nd st))"
proof -
  have "lookup (tree (final_state (copy_all_items src dst nf nd st))) q = lookup (tree st) q"
    if "unrelated q dst" for q
    using copy_items_frame[OF that, of src "listdir (tree st) src" nf nd "tree st"]
    by (auto simp: copy_all_items_def iterdir_def listdir_def final_state_def
        split: option.splits node.splits sum.splits prod.splits)
  moreover have "log (final_state (copy_all_items src dst nf nd st)) = log st"
    by (auto simp: copy_all_items_def final_state_def split: sum.splits prod.splits)
  ultimately have "keeps ps st (final_state (copy_all_items src dst nf nd st))"
    using assms(2) by (simp add: keeps_def)
  with assms(1) show ?thesis by (rule keeps_trans)
qed

lemma keeps_copytree_and_count:
  assumes "keeps ps st0 st" and "\<forall>q. (\<forall>p\<in>set ps. unrelated q p) \<longrightarrow> unrelated q dst"
  shows "keeps ps st0 (final_state (copytree_and_count src dst nf nd st))"
proof -
  have "lookup (tree (final_state (copytree_and_count src dst nf nd st))) q = lookup (tree st) q"
    if "unrelated q dst" for q
    using copytree_frame[OF that, of "tree st" src True]
    by (auto simp: copytree_and_count_def final_state_def
        split: option.splits node.splits sum.splits prod.splits)
  moreover have "log (final_state (copytree_and_count src dst nf nd st)) = log st"
    by (auto simp: copytree_and_count_def final_state_def
        split: sum.splits prod.splits option.splits node.splits)
  ultimately have "keeps ps st (final_state (copytree_and_count src dst nf nd st))"
    using assms(2) by (simp add: keeps_def)
  with assms(1) show ?thesis by (rule keeps_trans)
qed

lemma keeps_install_files:
  assumes "keeps ps st0 st" and "target_path \<in> set ps"
  shows "keeps ps st0 (final_state (install_files source_path target_path st))"
  unfolding install_files_def
  using assms
  by (intro keeps_and_then keeps_mkdir_parents keeps_copy_all_items) auto

lemma keeps_restore_from_data_backup:
  assumes "keeps ps st0 st" and "\<forall>d. server_data_dir = Some d \<longrightarrow> d \<in> set ps"
  shows "keeps ps st0 (final_state (restore_from_data_backup server_data_dir data_backup st))"
proof (cases server_data_dir)
  case None
  with assms show ?thesis by (simp add: restore_from_data_backup_def final_state_Inr)
next
  case (Some d)
  with assms(2) have d: "d \<in> set ps" by simp
  show ?thesis
  proof (cases "data_backup")
    case None
    with Some assms show ?thesis by (simp add: restore_from_data_backup_def final_state_Inr)
  next
    case b: (Some n)
    have "keeps ps st0 (final_state
            (and_then (mkdir_parents d st)
               (\<lambda>u st1. and_then (copy_all_items (path_parent d @ [n]) d 0 0 (logging RestoringServerData st1))
                  (\<lambda>(nf, nd) st2. Inr ((nf, nd), logging (ServerDataRestored nf nd) st2)))))"
      using assms(1) d
      by (intro keeps_and_then keeps_mkdir_parents keeps_copy_all_items keeps_logging)
         (auto simp: final_state_Inr case_prod_beta intro!: keeps_logging)
    with Some b assms(1) show ?thesis
      by (simp add: restore_from_data_backup_def final_state_Inr Let_def)
  qed
qed

lemma keeps_restore_from_server_backup:
  assumes "keeps ps st0 st" and "\<forall>d. server_data_dir = Some d \<longrightarrow> d \<in> set ps"
    and "target_path \<in> set ps"
  shows "keeps ps st0 (final_state
           (restore_from_server_backup target_path server_data_dir server_backup counts st))"
proof (cases "server_backup")
  case None
  with assms show ?thesis by (simp add: restore_from_server_backup_def final_state_Inr)
next
  case b: (Some n)
  let ?sd = "(path_parent target_path @ [n]) @ [''ServerData'']"
  have below: "\<forall>q. (\<forall>p\<in>set ps. unrelated q p) \<longrightarrow> unrelated q (target_path @ [''ServerData''])"
    using assms(3) by (auto intro: unrelated_below)
  have "keeps ps st0 (final_state
          (and_then
             (case server_data_dir of
                Some server_data_path \<Rightarrow>
                  and_then (mkdir_parents server_data_path (logging FoundServerDataInBackup st))
                    (\<lambda>u st2. copy_all_items ?sd server_data_path (fst counts) (snd counts)
                                (logging CopyingServerDataToConfigured st2))
              | None \<Rightarrow>
                  copytree_and_count ?sd (target_path @ [''ServerData''])
                    (fst counts) (snd counts)
                    (logging CopyingServerDataBack (logging FoundServerDataInBackup st)))
             (\<lambda>(nf, nd) st3. Inr ((nf, nd), logging (ServerDataFromBackupRestored nf nd) st3))))"
  proof (cases server_data_dir)
    case None
    with assms(1) below show ?thesis
      by (intro keeps_and_then)
         (auto simp: final_state_Inr case_prod_beta intro!: keeps_logging keeps_copytree_and_count)
  next
    case (Some d)
    with assms(1,2) show ?thesis
      by (intro keeps_and_then)
         (auto simp: final_state_Inr case_prod_beta
            intro!: keeps_logging keeps_and_then keeps_mkdir_parents keeps_copy_all_items)
  qed
  with b assms(1) show ?thesis
    by (simp add: restore_from_server_backup_def final_state_Inr Let_def)
qed

lemma keeps_restore_from_artifact:
  assumes "keeps ps st0 st" and "\<forall>d. server_data_dir = Some d \<longrightarrow> d \<in> set ps"
    and "target_path \<in> set ps"
  shows "keeps ps st0 (final_state
           (restore_from_artifact source_path target_path server_data_dir counts st))"
proof -
  let ?sd = "source_path @ [''server-data'']"
  have below: "\<forall>q. (\<forall>p\<in>set ps. unrelated q p) \<longrightarrow> unrelated q (target_path @ [''ServerData''])"
    using assms(3) by (auto intro: unrelated_below)
  have "keeps ps st0 (final_state
          (and_then
             (case server_data_dir of
                Some server_data_path \<Rightarrow>
                  and_then (mkdir_parents server_data_path st)
                    (\<lambda>u st1. copy_all_items ?sd server_data_path (fst counts) (snd counts)
                                (logging CopyingServerDataFromArtifact st1))
              | None \<Rightarrow>
                  copytree_and_count ?sd (target_path @ [''ServerData''])
                    (fst counts) (snd counts) st)
             (\<lambda>(nf, nd) st2. Inr ((nf, nd), logging (ServerDataFromArtifact nf nd) st2))))"
  proof (cases server_data_dir)
    case None
    with assms(1) below show ?thesis
      by (intro keeps_and_then)
         (auto simp: final_state_Inr case_prod_beta intro!: keeps_logging keeps_copytree_and_count)
  next
    case (Some d)
    with assms(1,2) show ?thesis
      by (intro keeps_and_then)
         (auto simp: final_state_Inr case_prod_beta
            intro!: keeps_logging keeps_and_then keeps_mkdir_parents keeps_copy_all_items)
  qed
  with assms(1) show ?thesis
    by (simp add: restore_from_artifact_def final_state_Inr Let_def)
qed

lemma keeps_create_version_file:
  assumes "keeps ps st0 st" and "target_path \<in> set ps"
  shows "keeps ps st0 (create_version_file target_path artifact st)"
proof -
  have "keeps ps st (create_version_file target_path artifact st)"
    using assms(2)
    by (auto simp: keeps_def create_version_file_def logging_def split: sum.splits
        intro!: write_file_frame unrelated_below)
  with assms(1) show ?thesis by (rule keeps_trans)
qed

lemma keeps_install_and_restore:
  assumes "keeps (touched target_path server_data_dir) st0 st"
  shows "keeps (touched target_path server_data_dir) st0
           (final_state (install_and_restore source_path target_path server_data_dir artifact_number
                           server_backup data_backup st))"
proof -
  have t: "target_path \<in> set (touched target_path server_data_dir)"
    and d: "\<forall>d. server_data_dir = Some d \<longrightarrow> d \<in> set (touched target_path server_data_dir)"
    by (auto simp: touched_def)
  show ?thesis
    unfolding install_and_restore_def
    using assms t d
    by (intro keeps_and_then keeps_install_files keeps_restore_from_data_backup
          keeps_restore_from_server_backup keeps_restore_from_artifact)
       (auto simp: final_state_Inr case_prod_beta Let_def split: option.splits list.splits
          intro!: keeps_logging keeps_create_version_file keeps_and_then keeps_restore_from_data_backup
            keeps_restore_from_server_backup keeps_restore_from_artifact)
qed

section \<open>Backups stay as they were made\<close>

lemma sibling_unrelated:
  assumes "p \<noteq> []" and "path_exists fs p" and "\<not> path_exists fs (path_parent p @ [x])"
  shows "unrelated (path_parent p @ [x]) p"
proof -
  from assms(1) have s: "p = path_parent p @ [last p]" by (simp add: path_parent_def)
  from assms(2,3) have "path_parent p @ [x] \<noteq> p" by auto
  with s have "x \<noteq> last p" by auto
  then have "\<not> prefix (path_parent p @ [x]) (path_parent p @ [last p])"
    "\<not> prefix (path_parent p @ [last p]) (path_parent p @ [x])"
    by simp_all
  with s show ?thesis unfolding unrelated_def by metis
qed

lemma fresh_sibling_unrelated:
  assumes "\<not> path_exists fs (path_parent d @ [x])" and "path_exists fs b"
    and "unrelated b d" and "d \<noteq> []"
  shows "unrelated b (path_parent d @ [x])"
proof -
  have "\<not> prefix (path_parent d @ [x]) b"
  proof
    assume "prefix (path_parent d @ [x]) b"
    then obtain r where "b = (path_parent d @ [x]) @ r" by (auto simp: prefix_def)
    with assms(2) lookup_exists_prefix[of fs "path_parent d @ [x]" r] assms(1)
    show False by (simp add: path_exists_def)
  qed
  moreover have "\<not> prefix b (path_parent d @ [x])"
  proof
    assume p: "prefix b (path_parent d @ [x])"
    from assms(1,2) have "b \<noteq> path_parent d @ [x]" by auto
    with p have "prefix b (path_parent d)" by (auto simp: prefix_snoc)
    then have "prefix b d"
      unfolding path_parent_def by (meson prefix_order.trans prefixeq_butlast)
    with assms(3) show False by (simp add: unrelated_def)
  qed
  ultimately show ?thesis by (simp add: unrelated_def)
qed

lemma backup_server_files_effect:
  "case backup_server_files target_path artifact_number st of
     Inl (e, st') \<Rightarrow>
       tree st' = tree st \<and> filter is_backup_event (log st') = filter is_backup_event (log st)
   | Inr (None, st') \<Rightarrow> st' = st
   | Inr (Some bn, st') \<Rightarrow>
       filter is_backup_event (log st') = filter is_backup_event (log st) @ [BackupCreated bn]
       \<and> target_path \<noteq> []
       \<and> \<not> path_exists (tree st) (path_parent target_path @ [bn])
       \<and> lookup (tree st) target_path \<noteq> None
       \<and> lookup (tree st') (path_parent target_path @ [bn]) = lookup (tree st) target_path
       \<and> (\<forall>q. unrelated q target_path \<and> unrelated q (path_parent target_path @ [bn])
              \<longrightarrow> lookup (tree st') q = lookup (tree st) q)"
proof -
  let ?NB = "create_backup_name (tree st) target_path artifact_number"
  from backup_name_shape[of "tree st" target_path artifact_number] obtain nm where nm:
    "?NB = path_parent target_path @ [nm]" "\<not> path_exists (tree st) (path_parent target_path @ [nm])"
    by blast
  then have pn: "path_name ?NB = nm" by (simp add: path_name_def)
  from nm have fresh: "\<not> path_exists (tree st) ?NB" by simp
  have mv: "target_path \<noteq> []
       \<and> lookup (tree st) target_path \<noteq> None
       \<and> lookup fs' (path_parent target_path @ [nm]) = lookup (tree st) target_path
       \<and> (\<forall>q. unrelated q target_path \<and> unrelated q (path_parent target_path @ [nm])
              \<longrightarrow> lookup fs' q = lookup (tree st) q)"
    if "shutil_move (tree st) target_path ?NB = Inr fs'" for fs'
    using shutil_move_fresh[OF that fresh] nm(1) by auto
  show ?thesis
    using nm(2)
    by (auto simp: backup_server_files_def logging_def Let_def pn
        split: option.splits node.splits list.splits sum.splits dest!: mv)
qed

lemma backup_server_data_effect:
  "case backup_server_data server_data_dir artifact_number st of
     Inl (e, st') \<Rightarrow>
       tree st' = tree st \<and> filter is_backup_event (log st') = filter is_backup_event (log st)
   | Inr (None, st') \<Rightarrow> st' = st
   | Inr (Some bn, st') \<Rightarrow>
       (\<exists>d. server_data_dir = Some d
          \<and> filter is_backup_event (log st') = filter is_backup_event (log st) @ [DataBackupCreated bn]
          \<and> d \<noteq> []
          \<and> \<not> path_exists (tree st) (path_parent d @ [bn])
          \<and> lookup (tree st) d \<noteq> None
          \<and> lookup (tree st') (path_parent d @ [bn]) = lookup (tree st) d
          \<and> (\<forall>q. unrelated q d \<and> unrelated q (path_parent d @ [bn])
                 \<longrightarrow> lookup (tree st') q = lookup (tree st) q))"
proof (cases server_data_dir)
  case None
  then show ?thesis by (simp add: backup_server_data_def)
next
  case (Some d)
  let ?NB = "create_backup_name (tree st) d artifact_number"
  from backup_name_shape[of "tree st" d artifact_number] obtain nm where nm:
    "?NB = path_parent d @ [nm]" "\<not> path_exists (tree st) (path_parent d @ [nm])"
    by blast
  then have pn: "path_name ?NB = nm" by (simp add: path_name_def)
  from nm have fresh: "\<not> path_exists (tree st) ?NB" by simp
  have mv: "d \<noteq> []
       \<and> lookup (tree st) d \<noteq> None
       \<and> lookup fs' (path_parent d @ [nm]) = lookup (tree st) d
       \<and> (\<forall>q. unrelated q d \<and> unrelated q (path_parent d @ [nm])
              \<longrightarrow> lookup fs' q = lookup (tree st) q)"
    if "shutil_move (tree st) d ?NB = Inr fs'" for fs'
    using shutil_move_fresh[OF that fresh] nm(1) by auto
  show ?thesis
    using nm(2) Some
    by (auto simp: backup_server_data_def logging_def Let_def pn
        split: option.splits node.splits list.splits sum.splits dest!: mv)
qed

lemma final_state_body:
  "final_state (copy_server_files_body source_path target_path server_data_dir artifact_number st)
   = (case backup_server_files target_path artifact_number (logging StartingFileCopy st) of
        Inl (e, s) \<Rightarrow> s
      | Inr (server_backup, st1) \<Rightarrow>
          (case backup_server_data server_data_dir artifact_number st1 of
             Inl (e, s) \<Rightarrow> s
           | Inr (data_backup, st2) \<Rightarrow>
               final_state (install_and_restore source_path target_path server_data_dir
                              artifact_number server_backup data_backup st2)))"
  by (simp add: body_as_steps and_then_def final_state_def split: sum.splits prod.splits)

lemma final_state_copy_server_files:
  "tree (final_state (copy_server_files fs source_dir target_dir server_data_dir artifact_number))
   = tree (final_state (copy_server_files_body source_dir target_dir server_data_dir artifact_number
                          \<lparr>tree = fs, log = []\<rparr>))"
  "filter is_backup_event
     (log (final_state (copy_server_files fs source_dir target_dir server_data_dir artifact_number)))
   = filter is_backup_event
       (log (final_state (copy_server_files_body source_dir target_dir server_data_dir artifact_number
                            \<lparr>tree = fs, log = []\<rparr>)))"
  by (auto simp: copy_server_files_def final_state_def logging_def split: sum.splits prod.splits)

lemma backup_event_logged:
  "is_backup_event ev \<Longrightarrow> (ev \<in> set evs) = (ev \<in> set (filter is_backup_event evs))"
  by simp

lemma swap_run_cases:
  fixes fs source_dir target_dir server_data_dir artifact_number
  defines "fin \<equiv> final_state (copy_server_files_body source_dir target_dir server_data_dir
                                   artifact_number \<lparr>tree = fs, log = []\<rparr>)"
  obtains
    (no_backup) "filter is_backup_event (log fin) = []"
  | (data_only) dbn d st2 where
      "filter is_backup_event (log fin) = [DataBackupCreated dbn]"
      "server_data_dir = Some d" "d \<noteq> []"
      "\<not> path_exists fs (path_parent d @ [dbn])" "lookup fs d \<noteq> None"
      "lookup (tree st2) (path_parent d @ [dbn]) = lookup fs d"
      "keeps (touched target_dir server_data_dir) st2 fin"
  | (server_only) bn st1 where
      "filter is_backup_event (log fin) = [BackupCreated bn]"
      "target_dir \<noteq> []"
      "\<not> path_exists fs (path_parent target_dir @ [bn])" "lookup fs target_dir \<noteq> None"
      "lookup (tree st1) (path_parent target_dir @ [bn]) = lookup fs target_dir"
      "keeps (touched target_dir server_data_dir) st1 fin"
  | (both) bn dbn d st1 st2 where
      "filter is_backup_event (log fin) = [BackupCreated bn, DataBackupCreated dbn]"
      "target_dir \<noteq> []"
      "\<not> path_exists fs (path_parent target_dir @ [bn])" "lookup fs target_dir \<noteq> None"
      "lookup (tree (st1 :: copy_state)) (path_parent target_dir @ [bn]) = lookup fs target_dir"
      "\<forall>q. unrelated q target_dir \<and> unrelated q (path_parent target_dir @ [bn])
           \<longrightarrow> lookup (tree st1) q = lookup fs q"
      "server_data_dir = Some d" "d \<noteq> []"
      "\<not> path_exists (tree st1) (path_parent d @ [dbn])" "lookup (tree st1) d \<noteq> None"
      "lookup (tree st2) (path_parent d @ [dbn]) = lookup (tree st1) d"
      "\<forall>q. unrelated q d \<and> unrelated q (path_parent d @ [dbn])
           \<longrightarrow> lookup (tree st2) q = lookup (tree st1) q"
      "keeps (touched target_dir server_data_dir) st2 fin"
proof -
  let ?st0 = "logging StartingFileCopy \<lparr>tree = fs, log = []\<rparr>"
  let ?ps = "touched target_dir server_data_dir"
  have t0: "tree ?st0 = fs" and e0: "filter is_backup_event (log ?st0) = []"
    by (simp_all add: logging_def)
  note b1 = backup_server_files_effect[where target_path = target_dir
      and artifact_number = artifact_number and st = ?st0]
  show ?thesis
  proof (cases "backup_server_files target_dir artifact_number ?st0")
    case (Inl x)
    obtain e s where x: "x = (e, s)" by (cases x)
    from b1 Inl x e0 have "filter is_backup_event (log fin) = []"
      by (simp add: fin_def final_state_body)
    then show ?thesis by (rule no_backup)
  next
    case r1: (Inr x1)
    obtain bc st1 where x1: "x1 = (bc, st1)" by (cases x1)
    note b2 = backup_server_data_effect[where server_data_dir = server_data_dir
        and artifact_number = artifact_number and st = st1]
    show ?thesis
    proof (cases "backup_server_data server_data_dir artifact_number st1")
      case (Inl x)
      obtain e s where x: "x = (e, s)" by (cases x)
      from r1 x1 Inl x have f: "fin = s" by (simp add: fin_def final_state_body)
      from b2 Inl x have same: "tree s = tree st1"
        "filter is_backup_event (log s) = filter is_backup_event (log st1)" by simp_all
      then have k: "keeps ?ps st1 fin" unfolding f by (simp add: keeps_def)
      show ?thesis
      proof (cases bc)
        case None
        with b1 r1 x1 have "st1 = ?st0" by simp
        with same e0 f have "filter is_backup_event (log fin) = []" by simp
        then show ?thesis by (rule no_backup)
      next
        case (Some bn)
        with b1 r1 x1 t0 e0 same f k show ?thesis
          by (intro server_only[of bn st1]) auto
      qed
    next
      case r2: (Inr x2)
      obtain dbc st2 where x2: "x2 = (dbc, st2)" by (cases x2)
      from r1 x1 r2 x2 have f: "fin = final_state (install_and_restore source_dir target_dir
            server_data_dir artifact_number bc dbc st2)"
        by (simp add: fin_def final_state_body)
      from keeps_install_and_restore[OF keeps_refl, where target_path = target_dir
          and server_data_dir = server_data_dir and st = st2 and source_path = source_dir
          and artifact_number = artifact_number and server_backup = bc and data_backup = dbc]
      have k: "keeps ?ps st2 fin" unfolding f .
      then have ke: "filter is_backup_event (log fin) = filter is_backup_event (log st2)"
        by (simp add: keeps_def)
      show ?thesis
      proof (cases bc)
        case bn: None
        with b1 r1 x1 have s1: "st1 = ?st0" by simp
        show ?thesis
        proof (cases dbc)
          case None
          with b2 r2 x2 s1 e0 ke have "filter is_backup_event (log fin) = []" by simp
          then show ?thesis by (rule no_backup)
        next
          case (Some dbn)
          with b2 r2 x2 obtain d where "server_data_dir = Some d"
            "filter is_backup_event (log st2) = filter is_backup_event (log st1) @ [DataBackupCreated dbn]"
            "d \<noteq> []" "\<not> path_exists (tree st1) (path_parent d @ [dbn])"
            "lookup (tree st1) d \<noteq> None"
            "lookup (tree st2) (path_parent d @ [dbn]) = lookup (tree st1) d"
            by auto
          with s1 t0 e0 ke k show ?thesis
            by (intro data_only[of dbn d st2]) auto
        qed
      next
        case bn: (Some bn)
        from b1 r1 x1 bn t0 e0 have p1:
          "filter is_backup_event (log st1) = [BackupCreated bn]"
          "target_dir \<noteq> []"
          "\<not> path_exists fs (path_parent target_dir @ [bn])" "lookup fs target_dir \<noteq> None"
          "lookup (tree st1) (path_parent target_dir @ [bn]) = lookup fs target_dir"
          "\<forall>q. unrelated q target_dir \<and> unrelated q (path_parent target_dir @ [bn])
               \<longrightarrow> lookup (tree st1) q = lookup fs q"
          by auto
        show ?thesis
        proof (cases dbc)
          case None
          with b2 r2 x2 have "st2 = st1" by simp
          with p1 ke k show ?thesis
            by (intro server_only[of bn st1]) auto
        next
          case (Some dbn)
          with b2 r2 x2 obtain d where p2: "server_data_dir = Some d"
            "filter is_backup_event (log st2) = filter is_backup_event (log st1) @ [DataBackupCreated dbn]"
            "d \<noteq> []" "\<not> path_exists (tree st1) (path_parent d @ [dbn])"
            "lookup (tree st1) d \<noteq> None"
            "lookup (tree st2) (path_parent d @ [dbn]) = lookup (tree st1) d"
            "\<forall>q. unrelated q d \<and> unrelated q (path_parent d @ [dbn])
                 \<longrightarrow> lookup (tree st2) q = lookup (tree st1) q"
            by auto
          from p1(1) p2(2) ke have "filter is_backup_event (log fin)
              = [BackupCreated bn, DataBackupCreated dbn]" by simp
          from both[OF this p1(2-6) p2(1) p2(3-7) k] show ?thesis .
        qed
      qed
    qed
  qed
qed

lemma keepsD:
  "keeps (touched target_dir server_data_dir) st st' \<Longrightarrow> unrelated q target_dir \<Longrightarrow>
   (\<forall>d. server_data_dir = Some d \<longrightarrow> unrelated q d) \<Longrightarrow>
   lookup (tree st') q = lookup (tree st) q"
  by (cases server_data_dir) (auto simp: keeps_def touched_def)

lemma backups_intact:
  fixes fs source_dir target_dir server_data_dir artifact_number
  defines "fin \<equiv> final_state (copy_server_files fs source_dir target_dir server_data_dir artifact_number)"
  shows "\<forall>bn. BackupCreated bn \<in> set (log fin)
            \<and> (\<forall>d. server_data_dir = Some d \<longrightarrow> unrelated (path_parent target_dir @ [bn]) d)
          \<longrightarrow> lookup fs target_dir \<noteq> None
              \<and> lookup (tree fin) (path_parent target_dir @ [bn]) = lookup fs target_dir"
    and "\<forall>dbn d. server_data_dir = Some d \<and> DataBackupCreated dbn \<in> set (log fin)
            \<and> unrelated d target_dir \<and> unrelated (path_parent d @ [dbn]) target_dir
            \<and> (\<forall>bn. BackupCreated bn \<in> set (log fin) \<longrightarrow> unrelated (path_parent target_dir @ [bn]) d)
          \<longrightarrow> lookup fs d \<noteq> None
              \<and> lookup (tree fin) (path_parent d @ [dbn]) = lookup fs d"
proof -
  let ?fb = "final_state (copy_server_files_body source_dir target_dir server_data_dir
                            artifact_number \<lparr>tree = fs, log = []\<rparr>)"
  have tf: "tree fin = tree ?fb"
    and ef: "filter is_backup_event (log fin) = filter is_backup_event (log ?fb)"
    unfolding fin_def by (rule final_state_copy_server_files)+
  have sm: "BackupCreated bn \<in> set (filter is_backup_event (log ?fb))"
    if "BackupCreated bn \<in> set (log fin)" for bn
    using that unfolding ef[symmetric] by simp
  have sm': "BackupCreated bn \<in> set (log fin)"
    if "BackupCreated bn \<in> set (filter is_backup_event (log ?fb))" for bn
    using that unfolding ef[symmetric] by simp
  have dm: "DataBackupCreated bn \<in> set (filter is_backup_event (log ?fb))"
    if "DataBackupCreated bn \<in> set (log fin)" for bn
    using that unfolding ef[symmetric] by simp
  show "\<forall>bn. BackupCreated bn \<in> set (log fin)
            \<and> (\<forall>d. server_data_dir = Some d \<longrightarrow> unrelated (path_parent target_dir @ [bn]) d)
          \<longrightarrow> lookup fs target_dir \<noteq> None
              \<and> lookup (tree fin) (path_parent target_dir @ [bn]) = lookup fs target_dir"
  proof (intro allI impI, elim conjE)
    fix bn
    assume m: "BackupCreated bn \<in> set (log fin)"
      and u: "\<forall>d. server_data_dir = Some d \<longrightarrow> unrelated (path_parent target_dir @ [bn]) d"
    show "lookup fs target_dir \<noteq> None
              \<and> lookup (tree fin) (path_parent target_dir @ [bn]) = lookup fs target_dir"
    proof (cases rule: swap_run_cases[of source_dir target_dir server_data_dir artifact_number fs])
      case no_backup
      from sm[OF m] have "BackupCreated bn \<in> set []" unfolding no_backup .
      then show ?thesis by simp
    next
      case (data_only dbn d st2)
      from sm[OF m] have "BackupCreated bn \<in> set [DataBackupCreated dbn]" unfolding data_only(1) .
      then show ?thesis by simp
    next
      case (server_only bn0 st1)
      from sm[OF m] have "BackupCreated bn \<in> set [BackupCreated bn0]" unfolding server_only(1) .
      then have b: "bn0 = bn" by simp
      from server_only(2,3,4) have "unrelated (path_parent target_dir @ [bn0]) target_dir"
        by (intro sibling_unrelated) (auto simp: path_exists_def)
      from keepsD[OF server_only(6) this] u b server_only(4,5) tf show ?thesis by simp
    next
      case (both bn0 dbn d st1 st2)
      from sm[OF m] have "BackupCreated bn \<in> set [BackupCreated bn0, DataBackupCreated dbn]"
        unfolding both(1) .
      then have b: "bn0 = bn" by simp
      from both(2,3,4) have ut: "unrelated (path_parent target_dir @ [bn0]) target_dir"
        by (intro sibling_unrelated) (auto simp: path_exists_def)
      from u both(7) b have ud: "unrelated (path_parent target_dir @ [bn0]) d" by simp
      from both(4,5) have "path_exists (tree st1) (path_parent target_dir @ [bn0])"
        by (simp add: path_exists_def)
      from fresh_sibling_unrelated[OF both(9) this ud both(8)]
      have "unrelated (path_parent target_dir @ [bn0]) (path_parent d @ [dbn])" .
      with both(12) ud have "lookup (tree st2) (path_parent target_dir @ [bn0])
          = lookup (tree st1) (path_parent target_dir @ [bn0])" by simp
      with keepsD[OF both(13) ut] u b both(4,5) tf show ?thesis by simp
    qed
  qed
  show "\<forall>dbn d. server_data_dir = Some d \<and> DataBackupCreated dbn \<in> set (log fin)
            \<and> unrelated d target_dir \<and> unrelated (path_parent d @ [dbn]) target_dir
            \<and> (\<forall>bn. BackupCreated bn \<in> set (log fin) \<longrightarrow> unrelated (path_parent target_dir @ [bn]) d)
          \<longrightarrow> lookup fs d \<noteq> None
              \<and> lookup (tree fin) (path_parent d @ [dbn]) = lookup fs d"
  proof (intro allI impI, elim conjE)
    fix dbn d
    assume sd: "server_data_dir = Some d" and m: "DataBackupCreated dbn \<in> set (log fin)"
      and udt: "unrelated d target_dir" and ubt: "unrelated (path_parent d @ [dbn]) target_dir"
      and ub: "\<forall>bn. BackupCreated bn \<in> set (log fin) \<longrightarrow> unrelated (path_parent target_dir @ [bn]) d"
    show "lookup fs d \<noteq> None \<and> lookup (tree fin) (path_parent d @ [dbn]) = lookup fs d"
    proof (cases rule: swap_run_cases[of source_dir target_dir server_data_dir artifact_number fs])
      case no_backup
      from dm[OF m] have "DataBackupCreated dbn \<in> set []" unfolding no_backup .
      then show ?thesis by simp
    next
      case (server_only bn0 st1)
      from dm[OF m] have "DataBackupCreated dbn \<in> set [BackupCreated bn0]" unfolding server_only(1) .
      then show ?thesis by simp
    next
      case (data_only dbn0 d0 st2)
      from dm[OF m] have "DataBackupCreated dbn \<in> set [DataBackupCreated dbn0]"
        unfolding data_only(1) .
      with data_only(2) sd have e: "dbn0 = dbn" "d0 = d" by simp_all
      from data_only(3,4,5) e have "unrelated (path_parent d @ [dbn]) d"
        by (intro sibling_unrelated) (auto simp: path_exists_def)
      with keepsD[OF data_only(7) ubt] sd data_only(5,6) e tf show ?thesis by simp
    next
      case (both bn0 dbn0 d0 st1 st2)
      from dm[OF m] have "DataBackupCreated dbn \<in> set [BackupCreated bn0, DataBackupCreated dbn0]"
        unfolding both(1) .
      with both(7) sd have e: "dbn0 = dbn" "d0 = d" by simp_all
      have "BackupCreated bn0 \<in> set (log fin)"
        by (rule sm') (simp only: both(1), simp)
      with ub have "unrelated (path_parent target_dir @ [bn0]) d" by simp
      then have "unrelated d (path_parent target_dir @ [bn0])" by (simp add: unrelated_sym)
      with both(6) udt have d1: "lookup (tree st1) d = lookup fs d" by simp
      from both(8,9,10) e have "unrelated (path_parent d @ [dbn]) d"
        by (intro sibling_unrelated) (auto simp: path_exists_def)
      with keepsD[OF both(13) ubt] sd both(10,11) e d1 tf show ?thesis by simp
    qed
  qed
qed





section \<open>Outcomes of update and rollback\<close>

lemma install_and_restore_names:
  "install_and_restore source_path target_path server_data_dir artifact_number server_backup data_backup st
     = Inr (r, st') \<Longrightarrow>
   backup_created r = server_backup \<and> data_backup_created r = data_backup"
  by (auto simp: install_and_restore_def and_then_def Let_def split: sum.splits prod.splits)





section \<open>The listing, its order and its entries\<close>







section \<open>When moving and copying succeed\<close>


lemma put_new_child: "is_dir fs q \<Longrightarrow> \<exists>fs'. put fs (q @ [x]) v = Some fs'"
proof (induction q arbitrary: fs)
  case Nil
  then show ?case by (cases fs) (auto simp: is_dir_def)
next
  case (Cons y ys)
  then obtain es c where fs: "fs = Dir es" "map_of es y = Some c" "is_dir c ys"
    by (cases fs) (auto simp: is_dir_def split: option.splits)
  from Cons.IH[OF fs(3)] obtain c' where "put c (ys @ [x]) v = Some c'" by blast
  with fs show ?case by (cases "ys @ [x]") auto
qed

lemma has_child_is_dir: "lookup fs (q @ [x]) \<noteq> None \<Longrightarrow> is_dir fs q"
  by (cases "lookup fs q"; cases "the (lookup fs q)")
     (auto simp: lookup_append is_dir_def split: option.splits)





section \<open>Rollback: when it completes and what it leaves\<close>







section \<open>Where backups land\<close>

lemma backup_name_base:
  "\<exists>nm. create_backup_name fs t a = path_parent t @ [nm] \<and> prefix (path_name t) nm"
proof (cases "get_current_version fs t")
  case (Some v)
  from unique_loop_spec[of fs "path_parent t" "path_name t @ ''_backup_'' @ v" "path_name t @ ''_backup_'' @ v" 1]
  show ?thesis using Some by (auto simp: create_backup_name_def Let_def)
next
  case None
  show ?thesis
  proof (cases "\<exists>c cs. a = Some (c # cs)")
    case True
    then obtain c cs where a: "a = Some (c # cs)" by blast
    from unique_loop_spec[of fs "path_parent t" "path_name t @ ''_backup_'' @ (c # cs)" "path_name t @ ''_backup_'' @ (c # cs)" 1]
    show ?thesis using None a by (auto simp: create_backup_name_def Let_def)
  next
    case False
    then have b: "create_backup_name fs t a
        = path_parent t @ [(path_name t @ ''_bak'') @ str_nat (bak_loop fs (path_parent t) (path_name t @ ''_bak'') 1)]"
      using None by (auto simp: create_backup_name_def Let_def split: option.splits list.splits)
    show ?thesis unfolding b by simp
  qed
qed

lemma clear_of_backups_unrelated:
  assumes c: "clear_of_backups d p" and u: "unrelated d p" and b: "prefix (path_name d) nm"
  shows "unrelated (path_parent d @ [nm]) p"
proof -
  have "\<not> prefix (path_parent d @ [nm]) p"
  proof
    assume "prefix (path_parent d @ [nm]) p"
    then obtain r where p: "p = path_parent d @ nm # r" by (auto simp: prefix_def)
    then have "prefix (path_parent d) p" "drop (length (path_parent d)) p = nm # r" by simp_all
    with c b show False by (simp add: clear_of_backups_def)
  qed
  moreover have "\<not> prefix p (path_parent d @ [nm])"
  proof
    assume q: "prefix p (path_parent d @ [nm])"
    from \<open>\<not> prefix (path_parent d @ [nm]) p\<close> have "p \<noteq> path_parent d @ [nm]" by auto
    with q have "prefix p (path_parent d)" by (auto simp: prefix_snoc)
    then have "prefix p d"
      unfolding path_parent_def by (meson prefix_order.trans prefixeq_butlast)
    with u show False by (simp add: unrelated_def)
  qed
  ultimately show ?thesis by (simp add: unrelated_def)
qed

lemma backup_server_files_name:
  "backup_server_files t a st = Inr (Some bn, st') \<Longrightarrow>
   create_backup_name (tree st) t a = path_parent t @ [bn] \<and> prefix (path_name t) bn"
  using backup_name_base[of "tree st" t a]
  by (auto simp: backup_server_files_def Let_def path_name_def
      split: option.splits node.splits list.splits sum.splits)

lemma backup_server_data_name:
  "backup_server_data data a st = Inr (Some dbn, st') \<Longrightarrow>
   \<exists>d. data = Some d \<and> create_backup_name (tree st) d a = path_parent d @ [dbn]
       \<and> prefix (path_name d) dbn"
proof (cases data)
  case None
  then show "backup_server_data data a st = Inr (Some dbn, st') \<Longrightarrow> ?thesis"
    by (simp add: backup_server_data_def)
next
  case (Some d)
  then show "backup_server_data data a st = Inr (Some dbn, st') \<Longrightarrow> ?thesis"
    using backup_name_base[of "tree st" d a]
    by (auto simp: backup_server_data_def Let_def path_name_def
        split: option.splits node.splits list.splits sum.splits)
qed

lemma logged_backup_names:
  "list_all (named_after target_dir server_data_dir)
     (filter is_backup_event
        (log (final_state (copy_server_files_body source_dir target_dir server_data_dir
                             artifact_number \<lparr>tree = fs, log = []\<rparr>))))"
proof -
  let ?st0 = "logging StartingFileCopy \<lparr>tree = fs, log = []\<rparr>"
  let ?ok = "\<lambda>st. list_all (named_after target_dir server_data_dir) (filter is_backup_event (log st))"
  have e0: "?ok ?st0" by (simp add: logging_def)
  note b1 = backup_server_files_effect[where target_path = target_dir
      and artifact_number = artifact_number and st = ?st0]
  show ?thesis
  proof (cases "backup_server_files target_dir artifact_number ?st0")
    case (Inl x)
    obtain e s where x: "x = (e, s)" by (cases x)
    from b1 Inl x e0 show ?thesis by (simp add: final_state_body)
  next
    case r1: (Inr x1)
    obtain bc st1 where x1: "x1 = (bc, st1)" by (cases x1)
    have o1: "?ok st1"
    proof (cases bc)
      case None
      with b1 r1 x1 e0 show ?thesis by simp
    next
      case (Some bn)
      from backup_server_files_name[OF r1[unfolded x1 Some]]
      have "named_after target_dir server_data_dir (BackupCreated bn)"
        by (simp add: named_after_def)
      with b1 r1 x1 Some e0 show ?thesis by simp
    qed
    note b2 = backup_server_data_effect[where server_data_dir = server_data_dir
        and artifact_number = artifact_number and st = st1]
    show ?thesis
    proof (cases "backup_server_data server_data_dir artifact_number st1")
      case (Inl x)
      obtain e s where x: "x = (e, s)" by (cases x)
      from b2 Inl x o1 r1 x1 show ?thesis by (simp add: final_state_body)
    next
      case r2: (Inr x2)
      obtain dbc st2 where x2: "x2 = (dbc, st2)" by (cases x2)
      have o2: "?ok st2"
      proof (cases dbc)
        case None
        with b2 r2 x2 o1 show ?thesis by simp
      next
        case (Some dbn)
        from backup_server_data_name[OF r2[unfolded x2 Some]]
        have "named_after target_dir server_data_dir (DataBackupCreated dbn)"
          by (auto simp: named_after_def)
        with b2 r2 x2 Some o1 show ?thesis by auto
      qed
      from keeps_install_and_restore[OF keeps_refl, where target_path = target_dir
          and server_data_dir = server_data_dir and st = st2 and source_path = source_dir
          and artifact_number = artifact_number and server_backup = bc and data_backup = dbc]
      have "filter is_backup_event (log (final_state (install_and_restore source_dir target_dir
            server_data_dir artifact_number bc dbc st2))) = filter is_backup_event (log st2)"
        by (simp add: keeps_def)
      with o2 r1 x1 r2 x2 show ?thesis by (simp add: final_state_body)
    qed
  qed
qed

lemma backups_intact_inputs:
  fixes fs source_dir target_dir server_data_dir artifact_number
  defines "fin \<equiv> final_state (copy_server_files fs source_dir target_dir server_data_dir artifact_number)"
  assumes d: "\<forall>d. server_data_dir = Some d \<longrightarrow>
                unrelated d target_dir \<and> clear_of_backups d target_dir \<and> clear_of_backups target_dir d"
  shows "\<forall>bn. BackupCreated bn \<in> set (log fin)
          \<longrightarrow> lookup fs target_dir \<noteq> None
              \<and> lookup (tree fin) (path_parent target_dir @ [bn]) = lookup fs target_dir"
    and "\<forall>dbn d. server_data_dir = Some d \<and> DataBackupCreated dbn \<in> set (log fin)
          \<longrightarrow> lookup fs d \<noteq> None
              \<and> lookup (tree fin) (path_parent d @ [dbn]) = lookup fs d"
proof -
  have names: "list_all (named_after target_dir server_data_dir) (filter is_backup_event (log fin))"
    unfolding fin_def final_state_copy_server_files(2) by (rule logged_backup_names)
  have n1: "prefix (path_name target_dir) bn" if "BackupCreated bn \<in> set (log fin)" for bn
  proof -
    from that have "BackupCreated bn \<in> set (filter is_backup_event (log fin))" by simp
    with names have "named_after target_dir server_data_dir (BackupCreated bn)"
      unfolding list_all_iff by blast
    then show ?thesis by (simp add: named_after_def)
  qed
  have n2: "prefix (path_name dd) dbn"
    if "DataBackupCreated dbn \<in> set (log fin)" "server_data_dir = Some dd" for dbn dd
  proof -
    from that have "DataBackupCreated dbn \<in> set (filter is_backup_event (log fin))" by simp
    with names have "named_after target_dir server_data_dir (DataBackupCreated dbn)"
      unfolding list_all_iff by blast
    with that(2) show ?thesis by (simp add: named_after_def)
  qed
  have u1: "unrelated (path_parent target_dir @ [bn]) dd"
    if "BackupCreated bn \<in> set (log fin)" "server_data_dir = Some dd" for bn dd
    using clear_of_backups_unrelated[of target_dir dd bn] d that n1[OF that(1)]
    by (simp add: unrelated_sym)
  have u2: "unrelated (path_parent dd @ [dbn]) target_dir"
    if "DataBackupCreated dbn \<in> set (log fin)" "server_data_dir = Some dd" for dbn dd
    using clear_of_backups_unrelated[of dd target_dir dbn] d that n2[OF that]
    by simp
  note bi = backups_intact[where fs = fs and source_dir = source_dir and target_dir = target_dir
      and server_data_dir = server_data_dir and artifact_number = artifact_number,
      folded fin_def]
  show "\<forall>bn. BackupCreated bn \<in> set (log fin)
          \<longrightarrow> lookup fs target_dir \<noteq> None
              \<and> lookup (tree fin) (path_parent target_dir @ [bn]) = lookup fs target_dir"
    using bi(1) u1 by blast
  show "\<forall>dbn d. server_data_dir = Some d \<and> DataBackupCreated dbn \<in> set (log fin)
          \<longrightarrow> lookup fs d \<noteq> None
              \<and> lookup (tree fin) (path_parent d @ [dbn]) = lookup fs d"
  proof (intro allI impI)
    fix dbn dd
    assume a: "server_data_dir = Some dd \<and> DataBackupCreated dbn \<in> set (log fin)"
    with d have "unrelated dd target_dir" by blast
    moreover from a have "unrelated (path_parent dd @ [dbn]) target_dir" by (intro u2) simp_all
    moreover from a have "\<forall>bn. BackupCreated bn \<in> set (log fin)
        \<longrightarrow> unrelated (path_parent target_dir @ [bn]) dd" by (auto intro: u1)
    ultimately show "lookup fs dd \<noteq> None
              \<and> lookup (tree fin) (path_parent dd @ [dbn]) = lookup fs dd"
      using bi(2) a by blast
  qed
qed

section \<open>The new deployment tree\<close>

lemma unrelated_children: "unrelated p q \<Longrightarrow> unrelated (p @ r) (q @ s)"
proof -
  assume u: "unrelated p q"
  have a: False if "prefix (p @ r) (q @ s)"
  proof -
    from that have "prefix p (q @ s)" by (meson prefix_order.trans prefixI)
    moreover have "prefix q (q @ s)" by simp
    ultimately have "prefix p q \<or> prefix q p" by (rule prefix_same_cases)
    with u show False by (simp add: unrelated_def)
  qed
  have b: False if "prefix (q @ s) (p @ r)"
  proof -
    from that have "prefix q (p @ r)" by (meson prefix_order.trans prefixI)
    moreover have "prefix p (p @ r)" by simp
    ultimately have "prefix q p \<or> prefix p q" by (rule prefix_same_cases)
    with u show False by (simp add: unrelated_def)
  qed
  from a b show ?thesis unfolding unrelated_def by blast
qed

lemma unrelated_siblings: "x \<noteq> y \<Longrightarrow> unrelated (p @ [x]) (p @ [y])"
  by (simp add: unrelated_def)

lemma copy_items_installs:
  assumes "copy_items src dst xs nf nd fs = Inr (nf', nd', fs')"
    and "unrelated src dst"
    and "\<forall>x\<in>set xs. \<exists>c. lookup fs (src @ [x]) = Some c \<and> wf_node c"
    and "distinct xs"
    and "\<forall>x\<in>set xs. lookup fs (dst @ [x]) = None"
  shows "lookup fs' (dst @ [n]) = (if n \<in> set xs then lookup fs (src @ [n]) else lookup fs (dst @ [n]))"
  using assms
proof (induction xs arbitrary: nf nd fs)
  case Nil
  then show ?case by simp
next
  case (Cons x xs)
  from Cons.prems(3) obtain c where c: "lookup fs (src @ [x]) = Some c" "wf_node c" by auto
  from Cons.prems(5) have fx: "lookup fs (dst @ [x]) = None" by simp
  then have nd: "\<not> is_dir fs (dst @ [x])" "\<not> path_exists fs (dst @ [x])"
    by (simp_all add: is_dir_def path_exists_def)
  have "\<exists>fs1 nf1 nd1. lookup fs1 (dst @ [x]) = Some c
          \<and> (\<forall>q. unrelated q (dst @ [x]) \<longrightarrow> lookup fs1 q = lookup fs q)
          \<and> copy_items src dst xs nf1 nd1 fs1 = Inr (nf', nd', fs')"
  proof (cases c)
    case (File content)
    with c have f: "is_file fs (src @ [x])" by (simp add: is_file_def)
    with Cons.prems(1) obtain fs1 where s: "copy2 fs (src @ [x]) (dst @ [x]) = Inr fs1"
      "copy_items src dst xs (nf + 1) nd fs1 = Inr (nf', nd', fs')"
      by (auto split: sum.splits)
    from s(1) c File nd have "put fs (dst @ [x]) (File content) = Some fs1"
      by (auto simp: copy2_def write_file_def Let_def split: if_splits option.splits)
    from lookup_put_below[OF this, of "[]"] File have "lookup fs1 (dst @ [x]) = Some c" by simp
    moreover have "\<forall>q. unrelated q (dst @ [x]) \<longrightarrow> lookup fs1 q = lookup fs q"
      using copy2_frame[OF s(1)] by blast
    ultimately show ?thesis using s(2) by blast
  next
    case (Dir es)
    with c have f: "\<not> is_file fs (src @ [x])" "is_dir fs (src @ [x])"
      by (simp_all add: is_file_def is_dir_def)
    with Cons.prems(1) obtain fs1 where s: "copytree fs (src @ [x]) (dst @ [x]) True = Inr fs1"
      "copy_items src dst xs nf (nd + 1) fs1 = Inr (nf', nd', fs')"
      by (auto split: sum.splits prod.splits)
    note e = copytree_into_fresh[OF s(1) nd(2) c]
    from e s(2) show ?thesis by blast
  qed
  then obtain fs1 nf1 nd1 where s:
    "lookup fs1 (dst @ [x]) = Some c"
    "\<forall>q. unrelated q (dst @ [x]) \<longrightarrow> lookup fs1 q = lookup fs q"
    "copy_items src dst xs nf1 nd1 fs1 = Inr (nf', nd', fs')"
    by blast
  have src_same: "lookup fs1 (src @ [y]) = lookup fs (src @ [y])" for y
    using s(2) unrelated_children[OF Cons.prems(2), of "[y]" "[x]"] by blast
  have dst_same: "lookup fs1 (dst @ [y]) = lookup fs (dst @ [y])" if "y \<noteq> x" for y
    using s(2) unrelated_siblings[OF that, of dst] by blast
  from Cons.prems(4) have dx: "x \<notin> set xs" "distinct xs" by simp_all
  have w1: "\<forall>y\<in>set xs. \<exists>c. lookup fs1 (src @ [y]) = Some c \<and> wf_node c"
    using Cons.prems(3) src_same by simp
  have f1: "\<forall>y\<in>set xs. lookup fs1 (dst @ [y]) = None"
  proof
    fix y assume y: "y \<in> set xs"
    with dx(1) have "y \<noteq> x" by auto
    from dst_same[OF this] Cons.prems(5) y show "lookup fs1 (dst @ [y]) = None" by simp
  qed
  note ih = Cons.IH[OF s(3) Cons.prems(2) w1 dx(2) f1]
  show ?case
  proof (cases "n = x")
    case True
    with ih dx(1) s(1) c show ?thesis by simp
  next
    case False
    with ih src_same dst_same show ?thesis by simp
  qed
qed

lemma copy_items_frame_Inr:
  "copy_items src dst xs nf nd fs = Inr (nf', nd', fs') \<Longrightarrow> unrelated q dst \<Longrightarrow>
   lookup fs' q = lookup fs q"
  using copy_items_frame[of q dst src xs nf nd fs] by simp

lemma lookup_child_of:
  "lookup fs p = Some (Dir es) \<Longrightarrow> lookup fs (p @ [x]) = map_of es x"
  by (simp add: lookup_append split: option.splits)

lemma install_files_effect:
  assumes i: "install_files src tgt st = Inr (cnt, st')"
    and e: "lookup (tree st) tgt = None \<or> lookup (tree st) tgt = Some (Dir [])"
    and u: "unrelated src tgt"
    and w: "\<forall>n. lookup (tree st) src = Some n \<longrightarrow> wf_node n"
  shows "lookup (tree st') (tgt @ [n]) = lookup (tree st) (src @ [n])"
    and "\<And>q. unrelated q tgt \<Longrightarrow> lookup (tree st') q = lookup (tree st) q"
    and "is_dir (tree st') tgt"
proof -
  from i obtain fs1 es nf nd fs2 where s:
    "mkdirs (tree st) tgt = Inr fs1"
    "lookup fs1 src = Some (Dir es)"
    "copy_items src tgt (map fst es) 0 0 fs1 = Inr (nf, nd, fs2)"
    "tree st' = fs2"
    by (auto simp: install_files_def and_then_def mkdir_parents_def copy_all_items_def iterdir_def
        split: sum.splits option.splits node.splits prod.splits)
  from mkdirs_result[OF s(1)] e have t1: "lookup fs1 tgt = Some (Dir [])" by auto
  have f1: "lookup fs1 q = lookup (tree st) q" if "\<not> prefix q tgt" for q
    using mkdirs_frame[OF s(1) that] .
  from u have nps: "\<not> prefix (src @ r) tgt" for r
    using unrelated_children[OF u, of r "[]"] by (simp add: unrelated_def)
  from f1[OF nps[of "[]"]] s(2) have src0: "lookup (tree st) src = Some (Dir es)" by simp
  with w have wes: "wf_node (Dir es)" by blast
  have ch: "lookup fs1 (src @ [x]) = map_of es x" for x
    using s(2) by (rule lookup_child_of)
  have w1: "\<forall>x\<in>set (map fst es). \<exists>c. lookup fs1 (src @ [x]) = Some c \<and> wf_node c"
  proof
    fix x assume "x \<in> set (map fst es)"
    then obtain c where c: "map_of es x = Some c"
      by (metis map_of_eq_None_iff not_Some_eq set_map)
    then have "(x, c) \<in> set es" by (rule map_of_SomeD)
    with wes have "wf_node c" by auto
    with c ch show "\<exists>c. lookup fs1 (src @ [x]) = Some c \<and> wf_node c" by simp
  qed
  from wes have dn: "distinct (map fst es)" by simp
  have fr: "\<forall>x\<in>set (map fst es). lookup fs1 (tgt @ [x]) = None"
    using t1 by (simp add: lookup_child_of)
  note ci = copy_items_installs[OF s(3) u w1 dn fr]
  have "lookup fs2 (tgt @ [n]) = lookup fs1 (src @ [n])"
  proof (cases "n \<in> set (map fst es)")
    case True
    with ci show ?thesis by simp
  next
    case False
    then have "map_of es n = None" by (simp add: map_of_eq_None_iff)
    with ci[of n] False ch[of n] t1 show ?thesis by (simp add: lookup_child_of)
  qed
  with f1[OF nps[of "[n]"]] s(4) show "lookup (tree st') (tgt @ [n]) = lookup (tree st) (src @ [n])"
    by simp
  show "lookup (tree st') q = lookup (tree st) q" if "unrelated q tgt" for q
  proof -
    from that have "\<not> prefix q tgt" by (simp add: unrelated_def)
    from f1[OF this] copy_items_frame_Inr[OF s(3) that] s(4) show ?thesis by simp
  qed
  show "is_dir (tree st') tgt"
  proof (cases es)
    case Nil
    with s(3,4) t1 show ?thesis by (simp add: is_dir_def)
  next
    case (Cons a es')
    obtain x c where a: "a = (x, c)" by (cases a)
    with Cons ci[of x] ch[of x] s(4) have "lookup (tree st') (tgt @ [x]) \<noteq> None" by simp
    then show ?thesis by (rule has_child_is_dir)
  qed
qed

section \<open>The restore step writes in its own area\<close>

lemma keeps_restore_from_server_backup_area:
  "keeps [restore_area target_path server_data_dir] st
     (final_state (restore_from_server_backup target_path server_data_dir server_backup counts st))"
proof (cases "server_backup")
  case None
  then show ?thesis by (simp add: restore_from_server_backup_def final_state_Inr keeps_refl)
next
  case b: (Some n)
  let ?ps = "[restore_area target_path server_data_dir]"
  let ?sd = "(path_parent target_path @ [n]) @ [''ServerData'']"
  have "keeps ?ps st (final_state
          (and_then
             (case server_data_dir of
                Some server_data_path \<Rightarrow>
                  and_then (mkdir_parents server_data_path (logging FoundServerDataInBackup st))
                    (\<lambda>u st2. copy_all_items ?sd server_data_path (fst counts) (snd counts)
                                (logging CopyingServerDataToConfigured st2))
              | None \<Rightarrow>
                  copytree_and_count ?sd (target_path @ [''ServerData''])
                    (fst counts) (snd counts)
                    (logging CopyingServerDataBack (logging FoundServerDataInBackup st)))
             (\<lambda>(nf, nd) st3. Inr ((nf, nd), logging (ServerDataFromBackupRestored nf nd) st3))))"
  proof (cases server_data_dir)
    case None
    then have below: "\<forall>q. (\<forall>p\<in>set ?ps. unrelated q p) \<longrightarrow> unrelated q (target_path @ [''ServerData''])"
      by (simp add: restore_area_def)
    from None below keeps_refl[of ?ps st] show ?thesis
      by (intro keeps_and_then)
         (auto simp: final_state_Inr case_prod_beta intro!: keeps_logging keeps_copytree_and_count)
  next
    case (Some d)
    then have "d \<in> set ?ps" by (simp add: restore_area_def)
    with Some keeps_refl[of ?ps st] show ?thesis
      by (intro keeps_and_then)
         (auto simp: final_state_Inr case_prod_beta
            intro!: keeps_logging keeps_and_then keeps_mkdir_parents keeps_copy_all_items)
  qed
  with b show ?thesis
    by (simp add: restore_from_server_backup_def final_state_Inr Let_def keeps_refl)
qed

lemma keeps_restore_from_artifact_area:
  "keeps [restore_area target_path server_data_dir] st
     (final_state (restore_from_artifact source_path target_path server_data_dir counts st))"
proof -
  let ?ps = "[restore_area target_path server_data_dir]"
  let ?sd = "source_path @ [''server-data'']"
  have "keeps ?ps st (final_state
          (and_then
             (case server_data_dir of
                Some server_data_path \<Rightarrow>
                  and_then (mkdir_parents server_data_path st)
                    (\<lambda>u st1. copy_all_items ?sd server_data_path (fst counts) (snd counts)
                                (logging CopyingServerDataFromArtifact st1))
              | None \<Rightarrow>
                  copytree_and_count ?sd (target_path @ [''ServerData''])
                    (fst counts) (snd counts) st)
             (\<lambda>(nf, nd) st2. Inr ((nf, nd), logging (ServerDataFromArtifact nf nd) st2))))"
  proof (cases server_data_dir)
    case None
    then have below: "\<forall>q. (\<forall>p\<in>set ?ps. unrelated q p) \<longrightarrow> unrelated q (target_path @ [''ServerData''])"
      by (simp add: restore_area_def)
    from None below keeps_refl[of ?ps st] show ?thesis
      by (intro keeps_and_then)
         (auto simp: final_state_Inr case_prod_beta intro!: keeps_logging keeps_copytree_and_count)
  next
    case (Some d)
    then have "d \<in> set ?ps" by (simp add: restore_area_def)
    with Some keeps_refl[of ?ps st] show ?thesis
      by (intro keeps_and_then)
         (auto simp: final_state_Inr case_prod_beta
            intro!: keeps_logging keeps_and_then keeps_mkdir_parents keeps_copy_all_items)
  qed
  then show ?thesis
    by (simp add: restore_from_artifact_def final_state_Inr Let_def keeps_refl)
qed

lemma keeps_restore_from_data_backup_area:
  "keeps [restore_area target_path server_data_dir] st
     (final_state (restore_from_data_backup server_data_dir data_backup st))"
  by (rule keeps_restore_from_data_backup[OF keeps_refl]) (simp add: restore_area_def)

lemma keeps_areaD:
  "keeps [p] st st' \<Longrightarrow> unrelated q p \<Longrightarrow> lookup (tree st') q = lookup (tree st) q"
  by (simp add: keeps_def)

lemma copytree_dst_exists: "copytree fs src dst ok = Inr fs' \<Longrightarrow> lookup fs' dst \<noteq> None"
proof -
  assume c: "copytree fs src dst ok = Inr fs'"
  then obtain fs1 ds' where "put fs1 dst (Dir ds') = Some fs'"
    by (auto simp: copytree_def split: option.splits node.splits sum.splits prod.splits if_splits)
  from lookup_put_below[OF this, of "[]"] show ?thesis by simp
qed

lemma copytree_and_count_is_dir:
  "copytree_and_count src (tgt @ [x]) nf nd st = Inr (cnt, st') \<Longrightarrow> is_dir (tree st') tgt"
proof -
  assume c: "copytree_and_count src (tgt @ [x]) nf nd st = Inr (cnt, st')"
  then obtain fs' where "copytree (tree st) src (tgt @ [x]) True = Inr fs'" "tree st' = fs'"
    by (auto simp: copytree_and_count_def split: sum.splits prod.splits option.splits node.splits)
  with copytree_dst_exists[of "tree st" src "tgt @ [x]" True fs'] show ?thesis
    by (auto intro: has_child_is_dir)
qed

lemma restore_from_server_backup_is_dir:
  assumes "restore_from_server_backup tgt None bc counts st = Inr (cnt, st')"
    and "is_dir (tree st) tgt"
  shows "is_dir (tree st') tgt"
  using assms
  by (auto simp: restore_from_server_backup_def and_then_def Let_def logging_def
      split: option.splits if_splits sum.splits prod.splits
      dest!: copytree_and_count_is_dir)

lemma restore_from_artifact_is_dir:
  assumes "restore_from_artifact src tgt None counts st = Inr (cnt, st')"
    and "is_dir (tree st) tgt"
  shows "is_dir (tree st') tgt"
  using assms
  by (auto simp: restore_from_artifact_def and_then_def Let_def logging_def
      split: option.splits if_splits sum.splits prod.splits
      dest!: copytree_and_count_is_dir)

lemma restore_from_data_backup_none:
  "restore_from_data_backup None dbc st = Inr (cnt, st') \<Longrightarrow> st' = st"
  by (simp add: restore_from_data_backup_def)

section \<open>The version marker\<close>

lemma create_version_file_effect:
  assumes "is_dir (tree st) tgt"
  shows "if is_dir (tree st) (tgt @ [''version.txt''])
         then FailedVersionFile \<in> set (log (create_version_file tgt a st))
              \<and> tree (create_version_file tgt a st) = tree st
         else lookup (tree (create_version_file tgt a st)) (tgt @ [''version.txt'']) = Some (File a)"
    and "\<And>q. unrelated q (tgt @ [''version.txt'']) \<Longrightarrow>
           lookup (tree (create_version_file tgt a st)) q = lookup (tree st) q"
proof -
  from put_new_child[OF assms, of "''version.txt''" "File a"] obtain fs' where
    p: "put (tree st) (tgt @ [''version.txt'']) (File a) = Some fs'" by blast
  from lookup_put_below[OF p, of "[]"] have l: "lookup fs' (tgt @ [''version.txt'']) = Some (File a)"
    by simp
  from p l show "if is_dir (tree st) (tgt @ [''version.txt''])
         then FailedVersionFile \<in> set (log (create_version_file tgt a st))
              \<and> tree (create_version_file tgt a st) = tree st
         else lookup (tree (create_version_file tgt a st)) (tgt @ [''version.txt'']) = Some (File a)"
    by (simp add: create_version_file_def write_file_def logging_def)
  fix q assume "unrelated q (tgt @ [''version.txt''])"
  then show "lookup (tree (create_version_file tgt a st)) q = lookup (tree st) q"
    by (auto simp: create_version_file_def logging_def split: sum.splits dest: write_file_frame)
qed

section \<open>A returned update has replaced the deployment tree\<close>

lemma backup_server_files_clears:
  assumes "backup_server_files t a st = Inr (bc, st1)"
  shows "lookup (tree st1) t = None \<or> lookup (tree st1) t = Some (Dir [])"
proof -
  let ?NB = "create_backup_name (tree st) t a"
  from backup_name_shape[of "tree st" t a] have fresh: "\<not> path_exists (tree st) ?NB" by auto
  have mv: "lookup fs' t = None" if "shutil_move (tree st) t ?NB = Inr fs'" for fs'
    using shutil_move_fresh(3)[OF that fresh] .
  from assms show ?thesis
    by (auto simp: backup_server_files_def logging_def Let_def
        split: option.splits node.splits list.splits sum.splits dest!: mv)
qed

lemma backup_server_files_frame:
  assumes b: "backup_server_files t a st = Inr (bc, st1)"
    and u: "unrelated q t" and e: "path_exists (tree st) q"
  shows "lookup (tree st1) q = lookup (tree st) q"
proof (cases bc)
  case None
  with b backup_server_files_effect[where target_path = t and artifact_number = a and st = st] show ?thesis by simp
next
  case (Some bn)
  with b backup_server_files_effect[where target_path = t and artifact_number = a and st = st] have f:
    "t \<noteq> []" "\<not> path_exists (tree st) (path_parent t @ [bn])"
    "\<forall>q. unrelated q t \<and> unrelated q (path_parent t @ [bn]) \<longrightarrow> lookup (tree st1) q = lookup (tree st) q"
    by simp_all
  from fresh_sibling_unrelated[OF f(2) e u f(1)] f(3) u show ?thesis by blast
qed

lemma backup_server_data_frame:
  assumes b: "backup_server_data data a st = Inr (dbc, st2)"
    and u: "\<forall>d. data = Some d \<longrightarrow> unrelated q d" and e: "path_exists (tree st) q"
  shows "lookup (tree st2) q = lookup (tree st) q"
proof (cases dbc)
  case None
  with b backup_server_data_effect[where server_data_dir = data and artifact_number = a and st = st] show ?thesis by simp
next
  case (Some dbn)
  with b backup_server_data_effect[where server_data_dir = data and artifact_number = a and st = st] obtain d where f:
    "data = Some d" "d \<noteq> []" "\<not> path_exists (tree st) (path_parent d @ [dbn])"
    "\<forall>q. unrelated q d \<and> unrelated q (path_parent d @ [dbn]) \<longrightarrow> lookup (tree st2) q = lookup (tree st) q"
    by auto
  from u f(1) have "unrelated q d" by simp
  with fresh_sibling_unrelated[OF f(3) e _ f(2)] f(4) show ?thesis by blast
qed

lemma backup_server_data_frame_clear:
  assumes b: "backup_server_data data a st = Inr (dbc, st2)"
    and u: "\<forall>d. data = Some d \<longrightarrow> unrelated d q \<and> clear_of_backups d q"
  shows "lookup (tree st2) q = lookup (tree st) q"
proof (cases dbc)
  case None
  with b backup_server_data_effect[where server_data_dir = data and artifact_number = a and st = st] show ?thesis by simp
next
  case (Some dbn)
  with b backup_server_data_effect[where server_data_dir = data and artifact_number = a and st = st] obtain d where f:
    "data = Some d"
    "\<forall>q. unrelated q d \<and> unrelated q (path_parent d @ [dbn]) \<longrightarrow> lookup (tree st2) q = lookup (tree st) q"
    by auto
  from backup_server_data_name[OF b[unfolded Some]] f(1) have p: "prefix (path_name d) dbn" by auto
  from u f(1) have ud: "unrelated d q" "clear_of_backups d q" by simp_all
  from clear_of_backups_unrelated[OF ud(2) ud(1) p] have "unrelated q (path_parent d @ [dbn])"
    by (simp add: unrelated_sym)
  with ud(1) f(2) show ?thesis by (simp add: unrelated_sym)
qed

lemma lookup_below_same:
  "lookup fs' p = lookup fs p \<Longrightarrow> lookup fs' (p @ r) = lookup fs (p @ r)"
  by (simp add: lookup_append)

lemma returned_update_replaces:
  assumes run: "copy_server_files fs src tgt data (Some (c # cs)) = Inr (r, st)"
    and wf: "wf_node fs" and sd: "path_exists fs src" and u: "unrelated src tgt"
    and d: "\<forall>d. data = Some d \<longrightarrow> unrelated d tgt \<and> unrelated d src \<and> clear_of_backups d tgt"
  shows "\<forall>n. n \<noteq> ''version.txt'' \<and> (data = None \<longrightarrow> n \<noteq> ''ServerData'')
             \<longrightarrow> lookup (tree st) (tgt @ [n]) = lookup fs (src @ [n])"
    and "if is_dir fs (src @ [''version.txt''])
         then FailedVersionFile \<in> set (log st)
              \<and> lookup (tree st) (tgt @ [''version.txt'']) = lookup fs (src @ [''version.txt''])
         else lookup (tree st) (tgt @ [''version.txt'']) = Some (File (c # cs))"
proof -
  let ?st0 = "logging StartingFileCopy \<lparr>tree = fs, log = []\<rparr>"
  let ?A = "restore_area tgt data"
  have t0: "tree ?st0 = fs" by (simp add: logging_def)
  from run obtain bc st1 dbc st2 where s:
    "backup_server_files tgt (Some (c # cs)) ?st0 = Inr (bc, st1)"
    "backup_server_data data (Some (c # cs)) st1 = Inr (dbc, st2)"
    "install_and_restore src tgt data (Some (c # cs)) bc dbc st2 = Inr (r, st)"
    by (auto simp: copy_server_files_def body_as_steps and_then_def split: sum.splits prod.splits)
  from s(3) obtain cf cd st3 ca st4 cb st5 rf rd st6 where i:
    "install_files src tgt st2 = Inr ((cf, cd), st3)"
    "restore_from_data_backup data dbc st3 = Inr (ca, st4)"
    "restore_from_server_backup tgt data bc ca st4 = Inr (cb, st5)"
    "restore_from_artifact src tgt data cb st5 = Inr ((rf, rd), st6)"
    "st = create_version_file tgt (c # cs) (logging (FilesCopied cf cd) st6)"
    by (auto simp: install_and_restore_def and_then_def Let_def split: sum.splits prod.splits)
  from backup_server_files_frame[OF s(1) u] sd t0
  have src1: "lookup (tree st1) src = lookup fs src" by simp
  with sd have sd1: "path_exists (tree st1) src" by (simp add: path_exists_def)
  from d have "\<forall>dd. data = Some dd \<longrightarrow> unrelated src dd" by (simp add: unrelated_sym)
  from backup_server_data_frame[OF s(2) this sd1] src1
  have src2: "lookup (tree st2) src = lookup fs src" by simp
  from d have "\<forall>dd. data = Some dd \<longrightarrow> unrelated dd tgt \<and> clear_of_backups dd tgt" by simp
  from backup_server_data_frame_clear[OF s(2) this] backup_server_files_clears[OF s(1)]
  have tg2: "lookup (tree st2) tgt = None \<or> lookup (tree st2) tgt = Some (Dir [])" by simp
  have w2: "\<forall>n. lookup (tree st2) src = Some n \<longrightarrow> wf_node n"
    using src2 wf wf_lookup by auto
  note ie = install_files_effect[OF i(1) tg2 u w2]
  have in3: "lookup (tree st3) (tgt @ [n]) = lookup fs (src @ [n])" for n
    using ie(1)[of n] lookup_below_same[OF src2, of "[n]"] by simp
  have k4: "keeps [?A] st3 st4"
    using keeps_restore_from_data_backup_area[of tgt data st3 dbc] i(2) by (simp add: final_state_Inr)
  have k5: "keeps [?A] st4 st5"
    using keeps_restore_from_server_backup_area[of tgt data st4 bc ca] i(3) by (simp add: final_state_Inr)
  have k6: "keeps [?A] st5 st6"
    using keeps_restore_from_artifact_area[of tgt data st5 src cb] i(4) by (simp add: final_state_Inr)
  have k: "keeps [?A] st3 st6" using k4 k5 k6 by (blast intro: keeps_trans)
  have out: "unrelated (tgt @ [n]) ?A" if "data = None \<longrightarrow> n \<noteq> ''ServerData''" for n
  proof (cases data)
    case None
    with that show ?thesis by (simp add: restore_area_def unrelated_siblings)
  next
    case (Some dd)
    with d have "unrelated tgt dd" by (simp add: unrelated_sym)
    from unrelated_children[OF this, of "[n]" "[]"] Some show ?thesis by (simp add: restore_area_def)
  qed
  have in6: "lookup (tree st6) (tgt @ [n]) = lookup fs (src @ [n])"
    if "data = None \<longrightarrow> n \<noteq> ''ServerData''" for n
    using keeps_areaD[OF k out[OF that]] in3[of n] by simp
  have dir6: "is_dir (tree st6) tgt"
  proof (cases data)
    case None
    from i(2) None have "st4 = st3" by (simp add: restore_from_data_backup_none)
    with ie(3) have "is_dir (tree st4) tgt" by simp
    with i(3) None have "is_dir (tree st5) tgt" by (auto dest: restore_from_server_backup_is_dir)
    with i(4) None show ?thesis by (auto dest: restore_from_artifact_is_dir)
  next
    case (Some dd)
    with d have "unrelated tgt ?A" by (simp add: unrelated_sym restore_area_def)
    from keeps_areaD[OF k this] ie(3) show ?thesis by (simp add: is_dir_def)
  qed
  let ?st7 = "logging (FilesCopied cf cd) st6"
  have t7: "tree ?st7 = tree st6" by (simp add: logging_def)
  from dir6 t7 have dir7: "is_dir (tree ?st7) tgt" by simp
  note ve = create_version_file_effect[OF dir7, where a = "c # cs"]
  show "\<forall>n. n \<noteq> ''version.txt'' \<and> (data = None \<longrightarrow> n \<noteq> ''ServerData'')
             \<longrightarrow> lookup (tree st) (tgt @ [n]) = lookup fs (src @ [n])"
  proof (intro allI impI)
    fix n assume n: "n \<noteq> ''version.txt'' \<and> (data = None \<longrightarrow> n \<noteq> ''ServerData'')"
    then have "unrelated (tgt @ [n]) (tgt @ [''version.txt''])" by (simp add: unrelated_siblings)
    from ve(2)[OF this] n in6[of n] t7 i(5) show "lookup (tree st) (tgt @ [n]) = lookup fs (src @ [n])"
      by simp
  qed
  have m6: "lookup (tree ?st7) (tgt @ [''version.txt'']) = lookup fs (src @ [''version.txt''])"
    using in6[of "''version.txt''"] t7 by simp
  then have md: "is_dir (tree ?st7) (tgt @ [''version.txt'']) = is_dir fs (src @ [''version.txt''])"
    by (simp add: is_dir_def)
  from ve(1) md m6 i(5)
  show "if is_dir fs (src @ [''version.txt''])
         then FailedVersionFile \<in> set (log st)
              \<and> lookup (tree st) (tgt @ [''version.txt'']) = lookup fs (src @ [''version.txt''])
         else lookup (tree st) (tgt @ [''version.txt'']) = Some (File (c # cs))"
    by (auto split: if_splits)
qed

section \<open>A returned update has kept the data tree\<close>

lemma copy_items_counts_exact:
  assumes "copy_items src dst xs nf nd fs = Inr (nf', nd', fs')"
    and "unrelated src dst"
    and "\<forall>x\<in>set xs. path_exists fs (src @ [x])"
  shows "nf' + nd' = nf + nd + length xs"
  using assms
proof (induction xs arbitrary: nf nd fs)
  case Nil
  then show ?case by simp
next
  case (Cons x xs)
  from Cons.prems(3) obtain c where c: "lookup fs (src @ [x]) = Some c"
    by (auto simp: path_exists_def)
  have "\<exists>fs1 nf1 nd1. nf1 + nd1 = nf + nd + 1
          \<and> (\<forall>q. unrelated q (dst @ [x]) \<longrightarrow> lookup fs1 q = lookup fs q)
          \<and> copy_items src dst xs nf1 nd1 fs1 = Inr (nf', nd', fs')"
  proof (cases c)
    case (File content)
    with c have f: "is_file fs (src @ [x])" by (simp add: is_file_def)
    with Cons.prems(1) obtain fs1 where s: "copy2 fs (src @ [x]) (dst @ [x]) = Inr fs1"
      "copy_items src dst xs (nf + 1) nd fs1 = Inr (nf', nd', fs')"
      by (auto split: sum.splits)
    have "\<forall>q. unrelated q (dst @ [x]) \<longrightarrow> lookup fs1 q = lookup fs q"
      using copy2_frame[OF s(1)] by blast
    with s(2) show ?thesis by (intro exI[of _ fs1] exI[of _ "nf + 1"] exI[of _ nd]) simp
  next
    case (Dir es)
    with c have f: "\<not> is_file fs (src @ [x])" "is_dir fs (src @ [x])"
      by (simp_all add: is_file_def is_dir_def)
    with Cons.prems(1) obtain fs1 where s: "copytree fs (src @ [x]) (dst @ [x]) True = Inr fs1"
      "copy_items src dst xs nf (nd + 1) fs1 = Inr (nf', nd', fs')"
      by (auto split: sum.splits prod.splits)
    have "\<forall>q. unrelated q (dst @ [x]) \<longrightarrow> lookup fs1 q = lookup fs q"
      using copytree_frame_Inr[OF s(1)] by blast
    with s(2) show ?thesis by (intro exI[of _ fs1] exI[of _ nf] exI[of _ "nd + 1"]) simp
  qed
  then obtain fs1 nf1 nd1 where s: "nf1 + nd1 = nf + nd + 1"
    "\<forall>q. unrelated q (dst @ [x]) \<longrightarrow> lookup fs1 q = lookup fs q"
    "copy_items src dst xs nf1 nd1 fs1 = Inr (nf', nd', fs')"
    by blast
  have "\<forall>y\<in>set xs. path_exists fs1 (src @ [y])"
  proof
    fix y assume "y \<in> set xs"
    with Cons.prems(3) have "path_exists fs (src @ [y])" by simp
    moreover from s(2) unrelated_children[OF Cons.prems(2), of "[y]" "[x]"]
    have "lookup fs1 (src @ [y]) = lookup fs (src @ [y])" by blast
    ultimately show "path_exists fs1 (src @ [y])" by (simp add: path_exists_def)
  qed
  from Cons.IH[OF s(3) Cons.prems(2) this] s(1) show ?case by simp
qed

lemma copy_all_items_into_fresh:
  assumes c: "copy_all_items src tgt nf nd st = Inr ((nf', nd'), st')"
    and t: "lookup (tree st) tgt = Some (Dir [])"
    and u: "unrelated src tgt"
    and s: "lookup (tree st) src = Some (Dir es)" and w: "wf_node (Dir es)"
  shows "lookup (tree st') (tgt @ [n]) = map_of es n"
    and "nf' + nd' = nf + nd + length es"
proof -
  from c s have ci: "copy_items src tgt (map fst es) nf nd (tree st) = Inr (nf', nd', tree st')"
    by (auto simp: copy_all_items_def iterdir_def split: sum.splits prod.splits)
  have ch: "lookup (tree st) (src @ [x]) = map_of es x" for x
    using s by (rule lookup_child_of)
  have w1: "\<forall>x\<in>set (map fst es). \<exists>c. lookup (tree st) (src @ [x]) = Some c \<and> wf_node c"
  proof
    fix x assume "x \<in> set (map fst es)"
    then obtain c where c: "map_of es x = Some c"
      by (metis map_of_eq_None_iff not_Some_eq set_map)
    then have "(x, c) \<in> set es" by (rule map_of_SomeD)
    with w have "wf_node c" by auto
    with c ch show "\<exists>c. lookup (tree st) (src @ [x]) = Some c \<and> wf_node c" by simp
  qed
  from w have dn: "distinct (map fst es)" by simp
  have fr: "\<forall>x\<in>set (map fst es). lookup (tree st) (tgt @ [x]) = None"
    using t by (simp add: lookup_child_of)
  note e = copy_items_installs[OF ci u w1 dn fr]
  show "lookup (tree st') (tgt @ [n]) = map_of es n"
  proof (cases "n \<in> set (map fst es)")
    case True
    with e[of n] ch show ?thesis by simp
  next
    case False
    then have "map_of es n = None" by (simp add: map_of_eq_None_iff)
    with e[of n] False t show ?thesis by (simp add: lookup_child_of)
  qed
  from w1 have "\<forall>x\<in>set (map fst es). path_exists (tree st) (src @ [x])"
    by (auto simp: path_exists_def)
  from copy_items_counts_exact[OF ci u this] show "nf' + nd' = nf + nd + length es" by simp
qed

lemma backup_name_nonempty:
  "create_backup_name fs t a = p @ [nm] \<Longrightarrow> nm \<noteq> []"
proof -
  assume a: "create_backup_name fs t a = p @ [nm]"
  have "\<exists>x. create_backup_name fs t a = path_parent t @ [x] \<and> x \<noteq> []"
  proof (cases "get_current_version fs t")
    case (Some v)
    from unique_loop_spec[of fs "path_parent t" "path_name t @ ''_backup_'' @ v" "path_name t @ ''_backup_'' @ v" 1]
    show ?thesis using Some by (auto simp: create_backup_name_def Let_def)
  next
    case None
    show ?thesis
    proof (cases "\<exists>c cs. a = Some (c # cs)")
      case True
      then obtain c cs where a: "a = Some (c # cs)" by blast
      from unique_loop_spec[of fs "path_parent t" "path_name t @ ''_backup_'' @ (c # cs)" "path_name t @ ''_backup_'' @ (c # cs)" 1]
      show ?thesis using None a by (auto simp: create_backup_name_def Let_def)
    next
      case False
      then have b: "create_backup_name fs t a
          = path_parent t @ [(path_name t @ ''_bak'') @ str_nat (bak_loop fs (path_parent t) (path_name t @ ''_bak'') 1)]"
        using None by (auto simp: create_backup_name_def Let_def split: option.splits list.splits)
      show ?thesis unfolding b by simp
    qed
  qed
  with a show ?thesis by auto
qed

lemma backup_server_data_moves:
  assumes "backup_server_data (Some dd) a st = Inr (dbc, st2)"
    and "lookup (tree st) dd = Some (Dir (e # es))"
  shows "\<exists>dbn. dbc = Some dbn \<and> dbn \<noteq> [] \<and> lookup (tree st2) dd = None"
proof -
  let ?NB = "create_backup_name (tree st) dd a"
  from backup_name_shape[of "tree st" dd a] obtain nm where nm:
    "?NB = path_parent dd @ [nm]" "\<not> path_exists (tree st) (path_parent dd @ [nm])" by blast
  then have fresh: "\<not> path_exists (tree st) ?NB" by simp
  from backup_name_nonempty[OF nm(1)] nm(1) have ne: "path_name ?NB \<noteq> []"
    by (simp add: path_name_def)
  have mv: "lookup fs' dd = None" if "shutil_move (tree st) dd ?NB = Inr fs'" for fs'
    using shutil_move_fresh(3)[OF that fresh] .
  from assms ne show ?thesis
    by (auto simp: backup_server_data_def logging_def Let_def split: sum.splits dest!: mv)
qed

lemma create_version_file_frame:
  "unrelated q (tgt @ [''version.txt'']) \<Longrightarrow>
   lookup (tree (create_version_file tgt a st)) q = lookup (tree st) q"
  by (auto simp: create_version_file_def logging_def split: sum.splits dest: write_file_frame)

lemma returned_update_keeps_data:
  assumes run: "copy_server_files fs src tgt (Some dd) (Some (c # cs)) = Inr (r, st)"
    and wf: "wf_node fs"
    and ud: "unrelated dd tgt" and c1: "clear_of_backups dd tgt" and c2: "clear_of_backups tgt dd"
    and ne: "lookup fs dd = Some (Dir (e # es))"
    and nn: "lookup fs (tgt @ [''ServerData'']) = None"
  shows "lookup (tree st) (dd @ [n]) = lookup fs (dd @ [n])"
    and "data_backup_created r \<noteq> None"
proof -
  let ?st0 = "logging StartingFileCopy \<lparr>tree = fs, log = []\<rparr>"
  have t0: "tree ?st0 = fs" by (simp add: logging_def)
  from run obtain bc st1 dbc st2 where s:
    "backup_server_files tgt (Some (c # cs)) ?st0 = Inr (bc, st1)"
    "backup_server_data (Some dd) (Some (c # cs)) st1 = Inr (dbc, st2)"
    "install_and_restore src tgt (Some dd) (Some (c # cs)) bc dbc st2 = Inr (r, st)"
    by (auto simp: copy_server_files_def body_as_steps and_then_def split: sum.splits prod.splits)
  from s(3) obtain cf cd st3 ca st4 cb st5 rf rd st6 where i:
    "install_files src tgt st2 = Inr ((cf, cd), st3)"
    "restore_from_data_backup (Some dd) dbc st3 = Inr (ca, st4)"
    "restore_from_server_backup tgt (Some dd) bc ca st4 = Inr (cb, st5)"
    "restore_from_artifact src tgt (Some dd) cb st5 = Inr ((rf, rd), st6)"
    "st = create_version_file tgt (c # cs) (logging (FilesCopied cf cd) st6)"
    by (auto simp: install_and_restore_def and_then_def Let_def split: sum.splits prod.splits)
  from ne have ex: "path_exists (tree ?st0) dd" by (simp add: path_exists_def t0)
  from backup_server_files_frame[OF s(1) ud ex] t0 ne
  have d1: "lookup (tree st1) dd = Some (Dir (e # es))" by simp
  then have ex1: "path_exists (tree st1) dd" by (simp add: path_exists_def)
  from backup_server_data_moves[OF s(2) d1] obtain dbn where m:
    "dbc = Some dbn" "dbn \<noteq> []" "lookup (tree st2) dd = None" by blast
  let ?P = "path_parent dd @ [dbn]"
  from s(2) m(1) backup_server_data_effect[where server_data_dir = "Some dd"
      and artifact_number = "Some (c # cs)" and st = st1]
  have f2: "dd \<noteq> []" "\<not> path_exists (tree st1) ?P" "lookup (tree st2) ?P = lookup (tree st1) dd"
    by simp_all
  from backup_server_data_name[OF s(2)[unfolded m(1)]] have np: "prefix (path_name dd) dbn" by simp
  from clear_of_backups_unrelated[OF c1 ud np] have up_t: "unrelated ?P tgt" .
  from sibling_unrelated[OF f2(1) ex1 f2(2)] have up_d: "unrelated ?P dd" .
  from install_and_restore_names[OF s(3)] m(1) show "data_backup_created r \<noteq> None" by simp
  have k3: "keeps [tgt] st2 st3"
    using keeps_install_files[OF keeps_refl, of tgt "[tgt]" st2 src] i(1) by (simp add: final_state_Inr)
  from keeps_areaD[OF k3 ud] m(3) have d3: "lookup (tree st3) dd = None" by simp
  from keeps_areaD[OF k3 up_t] f2(3) d1 have p3: "lookup (tree st3) ?P = Some (Dir (e # es))" by simp
  then have pe3: "path_exists (tree st3) ?P" by (simp add: path_exists_def)
  from m(2) have tr: "truthy (Some dbn)" by (cases dbn) simp_all
  from i(2) m(1) tr pe3 obtain fs' nf nd stB where a:
    "mkdirs (tree st3) dd = Inr fs'"
    "copy_all_items ?P dd 0 0 (logging RestoringServerData (st3\<lparr>tree := fs'\<rparr>)) = Inr ((nf, nd), stB)"
    "st4 = logging (ServerDataRestored nf nd) stB" "ca = (nf, nd)"
    by (auto simp: restore_from_data_backup_def and_then_def mkdir_parents_def Let_def
        split: sum.splits prod.splits)
  let ?stA = "logging RestoringServerData (st3\<lparr>tree := fs'\<rparr>)"
  have tA: "tree ?stA = fs'" by (simp add: logging_def)
  from mkdirs_result[OF a(1)] d3 have dA: "lookup (tree ?stA) dd = Some (Dir [])" by (simp add: tA)
  from up_d have "\<not> prefix ?P dd" by (simp add: unrelated_def)
  from mkdirs_frame[OF a(1) this] p3 have pA: "lookup (tree ?stA) ?P = Some (Dir (e # es))"
    by (simp add: tA)
  from wf ne have we: "wf_node (Dir (e # es))" by (rule wf_lookup)
  note ci = copy_all_items_into_fresh[OF a(2) dA up_d pA we]
  have t4: "tree st4 = tree stB" unfolding a(3) by (simp add: logging_def)
  from ci(1)[of n] t4 lookup_child_of[OF ne, of n]
  have d4: "lookup (tree st4) (dd @ [n]) = lookup fs (dd @ [n])" by simp
  from ci(2) a(4) have pos: "\<not> (fst ca = 0 \<and> snd ca = 0)" by auto
  have b5: "st5 = st4 \<and> cb = ca"
  proof (cases bc)
    case None
    with i(3) show ?thesis by (simp add: restore_from_server_backup_def)
  next
    case (Some bn)
    let ?Q = "path_parent tgt @ [bn]"
    from s(1) Some t0 backup_server_files_effect[where target_path = tgt
        and artifact_number = "Some (c # cs)" and st = ?st0]
    have f1: "tgt \<noteq> []" "\<not> path_exists fs ?Q" "lookup fs tgt \<noteq> None"
      "lookup (tree st1) ?Q = lookup fs tgt"
      by simp_all
    from backup_server_files_name[OF s(1)[unfolded Some]] have nq: "prefix (path_name tgt) bn" by simp
    from ud have "unrelated tgt dd" by (simp add: unrelated_sym)
    from clear_of_backups_unrelated[OF c2 this nq] have uq_d: "unrelated ?Q dd" .
    from f1(3,4) have qe: "path_exists (tree st1) ?Q" by (simp add: path_exists_def)
    from uq_d have "\<forall>d. Some dd = Some d \<longrightarrow> unrelated ?Q d" by simp
    from backup_server_data_frame[OF s(2) this qe] f1(4)
    have q2: "lookup (tree st2) ?Q = lookup fs tgt" by simp
    from f1(3) have "path_exists fs tgt" by (simp add: path_exists_def)
    from sibling_unrelated[OF f1(1) this f1(2)] have uq_t: "unrelated ?Q tgt" .
    from keeps_areaD[OF k3 uq_t] q2 have q3: "lookup (tree st3) ?Q = lookup fs tgt" by simp
    have "keeps [dd] st3 st4"
      using keeps_restore_from_data_backup_area[of tgt "Some dd" st3 dbc] i(2)
      by (simp add: final_state_Inr restore_area_def)
    from keeps_areaD[OF this uq_d] q3 have "lookup (tree st4) ?Q = lookup fs tgt" by simp
    then have "lookup (tree st4) (?Q @ [''ServerData'']) = lookup fs (tgt @ [''ServerData''])"
      by (simp only: lookup_append[of _ _ "[''ServerData'']"])
    with nn have "\<not> path_exists (tree st4) (?Q @ [''ServerData''])" by (simp add: path_exists_def)
    with i(3) Some show ?thesis
      by (auto simp: restore_from_server_backup_def Let_def split: if_splits)
  qed
  with pos i(4) have b6: "st6 = st5" by (auto simp: restore_from_artifact_def)
  from ud have "unrelated tgt dd" by (simp add: unrelated_sym)
  from unrelated_children[OF this, of "[''version.txt'']" "[n]"]
  have "unrelated (dd @ [n]) (tgt @ [''version.txt''])" by (simp add: unrelated_sym)
  from create_version_file_frame[OF this, of "c # cs" "logging (FilesCopied cf cd) st6"] i(5)
  have "lookup (tree st) (dd @ [n]) = lookup (tree st6) (dd @ [n])" by (simp add: logging_def)
  with b5 b6 d4 show "lookup (tree st) (dd @ [n]) = lookup fs (dd @ [n])" by simp
qed

end
